theory Spec2Isabelle
  imports Main "HOL-Library.Sublist" "HOL-Library.AList"
begin

section \<open>Annotation quality control: the notebook's utilities and cells\<close>

text \<open>
  The development follows \<^verbatim>\<open>Quality_Control_Geimini.ipynb\<close>: the three utility
  functions \<^verbatim>\<open>read_csv\<close>, \<^verbatim>\<open>read_json\<close> and \<^verbatim>\<open>convert_bbox_coco_to_xyxy\<close>,
  the label mapping, the cropping step of the annotation loop and the cell that parses
  the model's response.

  A Python \<^verbatim>\<open>str\<close> is modelled by a \<^typ>\<open>string\<close> holding the bytes of its UTF-8
  encoding (the patterns, delimiters and keywords the notebook looks for are ASCII, so
  they occur in the encoding exactly where they occur in the text), a Python
  \<^verbatim>\<open>int\<close> by \<^typ>\<open>int\<close>, and a raised exception by a value of \<open>py_error\<close> on the
  left of a sum.
\<close>

subsection \<open>Exceptions\<close>

text \<open>
  The arguments of a \<open>FileNotFoundError\<close>: the form \<^verbatim>\<open>open\<close> raises (errno 2 with
  the file name) or a single message.
\<close>

datatype os_error_args = Errno_ENOENT string | Message string

text \<open>\<open>CsvError\<close> is \<^verbatim>\<open>_csv.Error\<close>.\<close>

datatype py_error =
    IndexError
  | KeyError int
  | TypeError
  | ValueError
  | AttributeError
  | CsvError
  | FileNotFoundError os_error_args


subsection \<open>Numbers\<close>

text \<open>
  A JSON number is decoded to a Python \<^verbatim>\<open>int\<close> or \<^verbatim>\<open>float\<close>. Binary floating
  point is not evaluated here: a float is kept as the expression that denotes it (the
  literal it was read from, the conversion of an integer, a sum).
\<close>

datatype pyfloat = FloatLit string | FloatOfInt int | FloatAdd pyfloat pyfloat

datatype py_num = PyInt int | PyFloat pyfloat

text \<open>Python's \<^verbatim>\<open>+\<close> on numbers: an \<^verbatim>\<open>int\<close> operand of a mixed sum is converted.\<close>

instantiation py_num :: plus
begin

fun plus_py_num :: "py_num \<Rightarrow> py_num \<Rightarrow> py_num" where
  "plus_py_num (PyInt a) (PyInt b) = PyInt (a + b)"
| "plus_py_num (PyInt a) (PyFloat g) = PyFloat (FloatAdd (FloatOfInt a) g)"
| "plus_py_num (PyFloat f) (PyInt b) = PyFloat (FloatAdd f (FloatOfInt b))"
| "plus_py_num (PyFloat f) (PyFloat g) = PyFloat (FloatAdd f g)"

instance ..

end

subsection \<open>Bounding boxes\<close>

text \<open>\<^verbatim>\<open>bbox[i]\<close> for a constant index \<open>i \<ge> 0\<close>: out of range raises \<open>IndexError\<close>.\<close>

definition list_getitem :: "'a list \<Rightarrow> nat \<Rightarrow> py_error + 'a" where
  "list_getitem xs i = (if i < length xs then Inr (xs ! i) else Inl IndexError)"

text \<open>
  \<^verbatim>\<open>x1 = bbox[0]; y1 = bbox[1]; x2 = x1 + bbox[2]; y2 = y1 + bbox[3]\<close>. The entries are
  of any type with an addition.
\<close>

definition convert_bbox_coco_to_xyxy :: "'a::plus list \<Rightarrow> py_error + 'a list" where
  "convert_bbox_coco_to_xyxy bbox =
     (case list_getitem bbox 0 of Inl e \<Rightarrow> Inl e | Inr x1 \<Rightarrow>
     (case list_getitem bbox 1 of Inl e \<Rightarrow> Inl e | Inr y1 \<Rightarrow>
     (case list_getitem bbox 2 of Inl e \<Rightarrow> Inl e | Inr w \<Rightarrow>
     (case list_getitem bbox 3 of Inl e \<Rightarrow> Inl e | Inr h \<Rightarrow>
        Inr [x1, y1, x1 + w, y1 + h]))))"

subsection \<open>Label mapping\<close>

text \<open>\<^verbatim>\<open>enumerate(xs, start=i)\<close>.\<close>

fun enumerate_from :: "int \<Rightarrow> 'a list \<Rightarrow> (int \<times> 'a) list" where
  "enumerate_from i [] = []"
| "enumerate_from i (x # xs) = (i, x) # enumerate_from (i + 1) xs"

text \<open>One entry of the dict comprehension: \<^verbatim>\<open>m[i] = j\<close>.\<close>

definition dict_setitem :: "int \<times> 'v \<Rightarrow> (int \<rightharpoonup> 'v) \<Rightarrow> (int \<rightharpoonup> 'v)" where
  "dict_setitem p m = m(fst p \<mapsto> snd p)"

text \<open>\<^verbatim>\<open>labels_mapping = {i:j for i,j in enumerate(labels, start=1)}\<close>.\<close>

definition labels_mapping :: "string list \<Rightarrow> (int \<rightharpoonup> string)" where
  "labels_mapping labels = fold dict_setitem (enumerate_from 1 labels) Map.empty"

text \<open>\<^verbatim>\<open>labels_mapping[k]\<close>: a key that is absent raises \<open>KeyError\<close>.\<close>

definition dict_getitem :: "(int \<rightharpoonup> 'v) \<Rightarrow> int \<Rightarrow> py_error + 'v" where
  "dict_getitem m k = (case m k of None \<Rightarrow> Inl (KeyError k) | Some v \<Rightarrow> Inr v)"

subsection \<open>Cropping\<close>






subsection \<open>Text files\<close>

definition LF :: char where
  "LF = CHR 0x0A"

definition CR :: char where
  "CR = CHR 0x0D"

text \<open>
  A file opened in text mode with the default \<^verbatim>\<open>newline=None\<close>: on reading,
  a carriage return followed by a line feed, and a lone carriage return, become a
  line feed.
\<close>

fun universal_newlines :: "string \<Rightarrow> string" where
  "universal_newlines [] = []"
| "universal_newlines [c] = [if c = CR then LF else c]"
| "universal_newlines (c # d # cs) =
     (if c = CR \<and> d = LF then LF # universal_newlines cs
      else if c = CR then LF # universal_newlines (d # cs)
      else c # universal_newlines (d # cs))"

text \<open>
  The file system is a map from paths to file contents. \<^verbatim>\<open>open(file_path, mode='r')\<close>
  followed by reading: a path that does not exist raises \<open>FileNotFoundError\<close>. Other
  conditions of the operating system (permissions, directories, undecodable bytes) are
  outside this model.
\<close>

definition open_read :: "(string \<rightharpoonup> string) \<Rightarrow> string \<Rightarrow> py_error + string" where
  "open_read fs file_path =
     (case fs file_path of
        None \<Rightarrow> Inl (FileNotFoundError (Errno_ENOENT file_path))
      | Some bytes \<Rightarrow> Inr (universal_newlines bytes))"

text \<open>
  Iterating over a text file yields its lines, each with its line feed; \<open>line\<close> is
  the line read so far.
\<close>

fun readlines :: "string \<Rightarrow> string \<Rightarrow> string list" where
  "readlines line [] = (if line = [] then [] else [line])"
| "readlines line (c # cs) =
     (if c = LF then (line @ [c]) # readlines [] cs else readlines (line @ [c]) cs)"

subsection \<open>The CSV reader\<close>

text \<open>
  \<^verbatim>\<open>csv.reader(csvfile)\<close> with the default dialect (delimiter \<^verbatim>\<open>,\<close>, quote character
  \<^verbatim>\<open>"\<close>, doubled quotes, no escape character, not strict), after the state machine
  of CPython's \<^verbatim>\<open>_csv\<close> module. The states for an escape character are left out:
  the default dialect has none. \<open>None\<close> as a character is the end of a line.
\<close>

datatype parser_state =
  START_RECORD | START_FIELD | IN_FIELD | IN_QUOTED_FIELD | QUOTE_IN_QUOTED_FIELD | EAT_CRNL

record reader =
  state :: parser_state
  row_fields :: "string list"
  field_buf :: string

definition field_limit :: nat where
  "field_limit = 131072"

text \<open>
  The length of the field read so far is counted in characters: the bytes of the
  encoding that are not continuation bytes.
\<close>

definition utf8_continuation :: "char \<Rightarrow> bool" where
  "utf8_continuation c \<longleftrightarrow> 0x80 \<le> (of_char c :: nat) \<and> (of_char c :: nat) \<le> 0xBF"

definition field_len :: "reader \<Rightarrow> nat" where
  "field_len self = length (filter (\<lambda>c. \<not> utf8_continuation c) (field_buf self))"

definition parse_reset :: reader where
  "parse_reset = \<lparr>state = START_RECORD, row_fields = [], field_buf = []\<rparr>"

definition parse_save_field :: "reader \<Rightarrow> reader" where
  "parse_save_field self =
     self\<lparr>row_fields := row_fields self @ [field_buf self], field_buf := []\<rparr>"

text \<open>A field longer than the limit raises \<^verbatim>\<open>_csv.Error\<close>.\<close>

definition parse_add_char :: "reader \<Rightarrow> char \<Rightarrow> py_error + reader" where
  "parse_add_char self c =
     (if \<not> utf8_continuation c \<and> field_limit \<le> field_len self then Inl CsvError
      else Inr (self\<lparr>field_buf := field_buf self @ [c]\<rparr>))"

definition add_char_then :: "parser_state \<Rightarrow> reader \<Rightarrow> char \<Rightarrow> py_error + reader" where
  "add_char_then s self c =
     (case parse_add_char self c of
        Inl e \<Rightarrow> Inl e
      | Inr self' \<Rightarrow> Inr (self'\<lparr>state := s\<rparr>))"

definition line_end :: "char option \<Rightarrow> bool" where
  "line_end c \<longleftrightarrow> c = None \<or> c = Some LF \<or> c = Some CR"

text \<open>The end of a line closes the field and the record.\<close>

definition end_of_field :: "reader \<Rightarrow> char option \<Rightarrow> reader" where
  "end_of_field self c =
     (parse_save_field self)\<lparr>state := (if c = None then START_RECORD else EAT_CRNL)\<rparr>"

definition start_field :: "reader \<Rightarrow> char option \<Rightarrow> py_error + reader" where
  "start_field self c =
     (if line_end c then Inr (end_of_field self c)
      else if c = Some (CHR 0x22) then Inr (self\<lparr>state := IN_QUOTED_FIELD\<rparr>)
      else if c = Some (CHR '','') then Inr (parse_save_field self)
      else add_char_then IN_FIELD self (the c))"

definition parse_process_char :: "reader \<Rightarrow> char option \<Rightarrow> py_error + reader" where
  "parse_process_char self c =
     (case state self of
        START_RECORD \<Rightarrow>
          if c = None then Inr self
          else if c = Some LF \<or> c = Some CR then Inr (self\<lparr>state := EAT_CRNL\<rparr>)
          else start_field (self\<lparr>state := START_FIELD\<rparr>) c
      | START_FIELD \<Rightarrow> start_field self c
      | IN_FIELD \<Rightarrow>
          if line_end c then Inr (end_of_field self c)
          else if c = Some (CHR '','')
            then Inr ((parse_save_field self)\<lparr>state := START_FIELD\<rparr>)
          else add_char_then IN_FIELD self (the c)
      | IN_QUOTED_FIELD \<Rightarrow>
          if c = None then Inr self
          else if c = Some (CHR 0x22) then Inr (self\<lparr>state := QUOTE_IN_QUOTED_FIELD\<rparr>)
          else add_char_then IN_QUOTED_FIELD self (the c)
      | QUOTE_IN_QUOTED_FIELD \<Rightarrow>
          if c = Some (CHR 0x22) then add_char_then IN_QUOTED_FIELD self (the c)
          else if c = Some (CHR '','')
            then Inr ((parse_save_field self)\<lparr>state := START_FIELD\<rparr>)
          else if line_end c then Inr (end_of_field self c)
          else add_char_then IN_FIELD self (the c)
      | EAT_CRNL \<Rightarrow>
          if c = Some LF \<or> c = Some CR then Inr self
          else if c = None then Inr (self\<lparr>state := START_RECORD\<rparr>)
          else Inl CsvError)"

text \<open>The characters of one line, then the end of the line.\<close>

fun process_line :: "reader \<Rightarrow> string \<Rightarrow> py_error + reader" where
  "process_line self [] = parse_process_char self None"
| "process_line self (c # cs) =
     (case parse_process_char self (Some c) of
        Inl e \<Rightarrow> Inl e
      | Inr self' \<Rightarrow> process_line self' cs)"

text \<open>
  The rows the reader yields. A record ends when a line leaves the parser in
  \<open>START_RECORD\<close>; a quoted field goes on over the next line. At the end of the input
  a record that was begun is yielded as it is.
\<close>

fun reader_rows :: "reader \<Rightarrow> string list \<Rightarrow> py_error + string list list" where
  "reader_rows self [] =
     (if field_len self \<noteq> 0 \<or> state self = IN_QUOTED_FIELD
      then Inr [row_fields (parse_save_field self)] else Inr [])"
| "reader_rows self (line # lines) =
     (case process_line self line of
        Inl e \<Rightarrow> Inl e
      | Inr self' \<Rightarrow>
          if state self' \<noteq> START_RECORD then reader_rows self' lines
          else (case reader_rows parse_reset lines of
                  Inl e \<Rightarrow> Inl e
                | Inr rows \<Rightarrow> Inr (row_fields self' # rows)))"

definition csv_reader :: "string \<Rightarrow> py_error + string list list" where
  "csv_reader csvfile = reader_rows parse_reset (readlines [] csvfile)"

subsection \<open>read_csv\<close>

text \<open>
  The loop of \<^verbatim>\<open>read_csv\<close>:
  \<^verbatim>\<open>for row in reader: if row: data_list.append(row[0])\<close>.
\<close>

fun append_first_columns :: "string list \<Rightarrow> string list list \<Rightarrow> string list" where
  "append_first_columns data_list [] = data_list"
| "append_first_columns data_list (row # rows) =
     append_first_columns (if row \<noteq> [] then data_list @ [row ! 0] else data_list) rows"

definition read_csv :: "(string \<rightharpoonup> string) \<Rightarrow> string \<Rightarrow> py_error + string list" where
  "read_csv fs file_path =
     (case open_read fs file_path of
        Inl e \<Rightarrow> Inl e
      | Inr csvfile \<Rightarrow>
          (case csv_reader csvfile of
             Inl e \<Rightarrow> Inl e
           | Inr rows \<Rightarrow> Inr (append_first_columns [] rows)))"

subsection \<open>JSON documents\<close>

text \<open>
  A decoded document. \<open>JNull\<close> is Python's \<^verbatim>\<open>None\<close>; an object is a \<^verbatim>\<open>dict\<close>, kept
  as the list of its items in insertion order, with distinct keys.
\<close>

datatype json =
    JNull
  | JBool bool
  | JNum py_num
  | JString string
  | JArray "json list"
  | JObject "(string \<times> json) list"

text \<open>\<^verbatim>\<open>d.get(k)\<close>: the value of the key, \<^verbatim>\<open>None\<close> when the key is absent.\<close>

definition dict_get :: "(string \<times> json) list \<Rightarrow> string \<Rightarrow> json" where
  "dict_get d k = (case map_of d k of None \<Rightarrow> JNull | Some v \<Rightarrow> v)"

subsection \<open>read_json\<close>


subsection \<open>Fence stripping\<close>

definition fence_open :: string where
  "fence_open = ''```json\<newline>''"

definition fence_close :: string where
  "fence_close = ''\<newline>```''"

text \<open>
  \<^verbatim>\<open>re.sub(r"```json\n|\n```", "", raw_text)\<close>: the text is scanned from the left; where
  one of the two patterns matches, the match is dropped and the scan goes on behind it.
\<close>

function re_sub_fence :: "string \<Rightarrow> string" where
  "re_sub_fence [] = []"
| "re_sub_fence (c # cs) =
     (if prefix fence_open (c # cs) then re_sub_fence (drop (length fence_open) (c # cs))
      else if prefix fence_close (c # cs)
        then re_sub_fence (drop (length fence_close) (c # cs))
      else c # re_sub_fence cs)"
  by pat_completeness auto
termination
  by (relation "measure length") (auto simp: fence_open_def fence_close_def)

text \<open>
  \<^verbatim>\<open>str.strip()\<close> removes the whitespace characters at both ends. These are the
  characters Python counts as whitespace, in UTF-8: the ASCII ones, U+0085, U+00A0,
  U+1680, U+2000 to U+200A, U+2028, U+2029, U+202F, U+205F and U+3000.
\<close>

definition py_whitespace :: "string list" where
  "py_whitespace =
     [[CHR 0x09], [CHR 0x0A], [CHR 0x0B], [CHR 0x0C], [CHR 0x0D],
      [CHR 0x1C], [CHR 0x1D], [CHR 0x1E], [CHR 0x1F], [CHR 0x20],
      [CHR 0xC2, CHR 0x85], [CHR 0xC2, CHR 0xA0], [CHR 0xE1, CHR 0x9A, CHR 0x80],
      [CHR 0xE2, CHR 0x80, CHR 0x80], [CHR 0xE2, CHR 0x80, CHR 0x81],
      [CHR 0xE2, CHR 0x80, CHR 0x82], [CHR 0xE2, CHR 0x80, CHR 0x83],
      [CHR 0xE2, CHR 0x80, CHR 0x84], [CHR 0xE2, CHR 0x80, CHR 0x85],
      [CHR 0xE2, CHR 0x80, CHR 0x86], [CHR 0xE2, CHR 0x80, CHR 0x87],
      [CHR 0xE2, CHR 0x80, CHR 0x88], [CHR 0xE2, CHR 0x80, CHR 0x89],
      [CHR 0xE2, CHR 0x80, CHR 0x8A], [CHR 0xE2, CHR 0x80, CHR 0xA8],
      [CHR 0xE2, CHR 0x80, CHR 0xA9], [CHR 0xE2, CHR 0x80, CHR 0xAF],
      [CHR 0xE2, CHR 0x81, CHR 0x9F], [CHR 0xE3, CHR 0x80, CHR 0x80]]"

text \<open>The length of the entry of the table the text starts with, 0 when there is none.\<close>

definition leading_length :: "string list \<Rightarrow> string \<Rightarrow> nat" where
  "leading_length table s =
     (case find (\<lambda>w. w \<noteq> [] \<and> prefix w s) table of None \<Rightarrow> 0 | Some w \<Rightarrow> length w)"

lemma leading_length_le: "leading_length table s \<le> length s"
  by (auto simp: leading_length_def prefix_def split: option.splits
      dest!: find_Some_iff [THEN iffD1])

lemma leading_length_decreases:
  "0 < leading_length table s \<Longrightarrow> length s - leading_length table s < length s"
  using leading_length_le [of table s] by arith

function strip_leading :: "string list \<Rightarrow> string \<Rightarrow> string" where
  "strip_leading table s =
     (if leading_length table s = 0 then s
      else strip_leading table (drop (leading_length table s) s))"
  by pat_completeness auto
termination
  by (relation "measure (\<lambda>(table, s). length s)") (auto intro: leading_length_decreases)

declare strip_leading.simps [simp del]

definition py_strip :: "string \<Rightarrow> string" where
  "py_strip s =
     rev (strip_leading (map rev py_whitespace) (rev (strip_leading py_whitespace s)))"

text \<open>\<^verbatim>\<open>json_string = re.sub(r"```json\n|\n```", "", raw_text).strip()\<close>.\<close>

definition fence_strip :: "string \<Rightarrow> string" where
  "fence_strip raw_text = py_strip (re_sub_fence raw_text)"

subsection \<open>The response cell\<close>

text \<open>
  The response of the model call as the cell reads it:
  \<^verbatim>\<open>response.candidates[0].content.parts[0].text\<close>. Each of the four levels may be
  \<^verbatim>\<open>None\<close> in the client library.
\<close>

datatype part = Part (part_text: "string option")

datatype content = Content (parts: "part list option")

datatype candidate = Candidate (content: "content option")

datatype response = Response (candidates: "candidate list option")

text \<open>
  What the cell prints: a line of text, a value (\<^verbatim>\<open>print(response_json)\<close>), or an
  f-string made of a fixed text and a value (\<^verbatim>\<open>print(f"Correct: {correct}")\<close>).
\<close>

datatype printed =
    Print_line string
  | Print_value json
  | Print_field string json

text \<open>The four variables the cell assigns.\<close>

record verification =
  original_label :: json
  correct :: json
  reasoning :: json
  correct_label :: json

text \<open>
  The outcome of the cell: its output, the four variables when they were assigned, and
  the exception that left the cell, if one did.
\<close>

record cell_result =
  stdout :: "printed list"
  extracted :: "verification option"
  raised :: "py_error option"

text \<open>
  The body of \<^verbatim>\<open>if response.candidates:\<close> from the fence stripping on. The decoder
  \<^verbatim>\<open>json.loads\<close> is the parameter \<open>loads\<close>; whatever it raises is a
  \<^verbatim>\<open>json.JSONDecodeError\<close> and is caught. \<^verbatim>\<open>response_json.get\<close> exists on a
  \<^verbatim>\<open>dict\<close> only: on any other document it raises \<open>AttributeError\<close>, which is not
  caught.
\<close>

definition parse_response :: "(string \<Rightarrow> 'e + json) \<Rightarrow> string \<Rightarrow> cell_result" where
  "parse_response loads raw_text =
     (let json_string = fence_strip raw_text in
      case loads json_string of
        Inl err \<Rightarrow>
          \<lparr>stdout = [Print_line (''Failed to decode JSON. Raw text:'' @ '' '' @ json_string)],
           extracted = None, raised = None\<rparr>
      | Inr response_json \<Rightarrow>
          (case response_json of
             JObject d \<Rightarrow>
               (let v = \<lparr>original_label = dict_get d ''original_label'',
                          correct = dict_get d ''correct'',
                          reasoning = dict_get d ''reasoning'',
                          correct_label = dict_get d ''correct_label''\<rparr>
                in \<lparr>stdout = [Print_value response_json,
                              Print_field ''Original Label: '' (original_label v),
                              Print_field ''Correct: '' (correct v),
                              Print_field ''Reasoning: '' (reasoning v),
                              Print_field ''Correct Label: '' (correct_label v)],
                    extracted = Some v, raised = None\<rparr>)
           | _ \<Rightarrow>
               \<lparr>stdout = [Print_value response_json], extracted = None,
                raised = Some AttributeError\<rparr>))"

text \<open>The \<^verbatim>\<open>else\<close> branch.\<close>

definition no_candidates :: cell_result where
  "no_candidates =
     \<lparr>stdout = [Print_line ''No candidates returned in the response.''],
      extracted = None, raised = None\<rparr>"

definition uncaught :: "py_error \<Rightarrow> cell_result" where
  "uncaught e = \<lparr>stdout = [], extracted = None, raised = Some e\<rparr>"

text \<open>
  The whole cell. \<^verbatim>\<open>if response.candidates:\<close> is false for \<^verbatim>\<open>None\<close> and for the
  empty list.
\<close>

definition response_cell :: "(string \<Rightarrow> 'e + json) \<Rightarrow> response \<Rightarrow> cell_result" where
  "response_cell loads response =
     (case candidates response of
        None \<Rightarrow> no_candidates
      | Some [] \<Rightarrow> no_candidates
      | Some (c # _) \<Rightarrow>
          (case content c of
             None \<Rightarrow> uncaught AttributeError
           | Some ct \<Rightarrow>
               (case parts ct of
                  None \<Rightarrow> uncaught TypeError
                | Some [] \<Rightarrow> uncaught IndexError
                | Some (p # _) \<Rightarrow>
                    (case part_text p of
                       None \<Rightarrow> uncaught TypeError
                     | Some raw_text \<Rightarrow> parse_response loads raw_text))))"

text \<open>A response with one candidate that holds one part of text.\<close>

definition text_response :: "string \<Rightarrow> response" where
  "text_response raw_text =
     Response (Some [Candidate (Some (Content (Some [Part (Some raw_text)])))])"

subsection \<open>The standard JSON decoder\<close>

text \<open>
  A decoder to put in the place of \<open>loads\<close>: \<^verbatim>\<open>json.loads\<close> on a \<^verbatim>\<open>str\<close>, after
  the scanner of Python's \<^verbatim>\<open>json\<close> module. It says whether the text is accepted and
  what it decodes to; the message and position of a \<^verbatim>\<open>JSONDecodeError\<close> are not
  computed, and the limits of the interpreter (recursion depth, digits of an integer)
  are not part of it.
\<close>

definition json_ws :: "char \<Rightarrow> bool" where
  "json_ws c \<longleftrightarrow> c = CHR '' '' \<or> c = CHR 0x09 \<or> c = CHR 0x0A \<or> c = CHR 0x0D"

definition skip_ws :: "string \<Rightarrow> string" where
  "skip_ws = dropWhile json_ws"

definition hex_digit :: "char \<Rightarrow> nat option" where
  "hex_digit c =
     (let n = of_char c :: nat in
      if 48 \<le> n \<and> n \<le> 57 then Some (n - 48)
      else if 97 \<le> n \<and> n \<le> 102 then Some (n - 87)
      else if 65 \<le> n \<and> n \<le> 70 then Some (n - 55)
      else None)"

fun hex4 :: "string \<Rightarrow> nat option" where
  "hex4 (a # b # c # d # _) =
     (case (hex_digit a, hex_digit b, hex_digit c, hex_digit d) of
        (Some h3, Some h2, Some h1, Some h0) \<Rightarrow> Some (((h3 * 16 + h2) * 16 + h1) * 16 + h0)
      | _ \<Rightarrow> None)"
| "hex4 _ = None"

text \<open>The UTF-8 encoding of a code point; a lone surrogate is encoded like any other.\<close>

definition utf8_encode :: "nat \<Rightarrow> string" where
  "utf8_encode u =
     (if u < 0x80 then [char_of u]
      else if u < 0x800 then [char_of (0xC0 + u div 64), char_of (0x80 + u mod 64)]
      else if u < 0x10000 then
        [char_of (0xE0 + u div 4096), char_of (0x80 + u div 64 mod 64),
         char_of (0x80 + u mod 64)]
      else
        [char_of (0xF0 + u div 262144), char_of (0x80 + u div 4096 mod 64),
         char_of (0x80 + u div 64 mod 64), char_of (0x80 + u mod 64)])"

text \<open>The character after a backslash, other than \<^verbatim>\<open>u\<close>.\<close>

definition simple_escape :: "char \<Rightarrow> char option" where
  "simple_escape c =
     (if c = CHR 0x22 then Some (CHR 0x22)
      else if c = CHR 0x5C then Some (CHR 0x5C)
      else if c = CHR ''/'' then Some (CHR ''/'')
      else if c = CHR ''b'' then Some (CHR 0x08)
      else if c = CHR ''f'' then Some (CHR 0x0C)
      else if c = CHR ''n'' then Some (CHR 0x0A)
      else if c = CHR ''r'' then Some (CHR 0x0D)
      else if c = CHR ''t'' then Some (CHR 0x09)
      else None)"

text \<open>
  One step of the string scanner: the closing quote, a piece of the string with the
  input behind it, or an error.
\<close>

datatype str_step = End_quote string | Piece string string | Bad_string

text \<open>
  Four hexadecimal digits after \<^verbatim>\<open>\u\<close>; a high surrogate directly followed by the
  escape of a low surrogate is joined with it.
\<close>

definition unicode_escape :: "string \<Rightarrow> str_step" where
  "unicode_escape cs =
     (case hex4 cs of
        None \<Rightarrow> Bad_string
      | Some u \<Rightarrow>
          (let rest = drop 4 cs in
           if 0xD800 \<le> u \<and> u \<le> 0xDBFF \<and> prefix [CHR 0x5C, CHR ''u''] rest then
             (case hex4 (drop 2 rest) of
                None \<Rightarrow> Bad_string
              | Some u2 \<Rightarrow>
                  if 0xDC00 \<le> u2 \<and> u2 \<le> 0xDFFF
                  then Piece (utf8_encode (0x10000 + (u - 0xD800) * 1024 + (u2 - 0xDC00)))
                         (drop 6 rest)
                  else Piece (utf8_encode u) rest)
           else Piece (utf8_encode u) rest))"

text \<open>A control character inside a string is an error (the decoder is strict).\<close>

fun string_step :: "string \<Rightarrow> str_step" where
  "string_step [] = Bad_string"
| "string_step (c # cs) =
     (if c = CHR 0x22 then End_quote cs
      else if c = CHR 0x5C then
        (case cs of
           [] \<Rightarrow> Bad_string
         | e # cs' \<Rightarrow>
             if e = CHR ''u'' then unicode_escape cs'
             else (case simple_escape e of None \<Rightarrow> Bad_string | Some ch \<Rightarrow> Piece [ch] cs'))
      else if (of_char c :: nat) \<le> 0x1F then Bad_string
      else Piece [c] cs)"

lemma hex4_length: "hex4 cs = Some u \<Longrightarrow> 4 \<le> length cs"
  by (induction cs rule: hex4.induct) auto

lemma unicode_escape_length: "unicode_escape cs = Piece p rest \<Longrightarrow> length rest < length cs"
  by (auto simp: unicode_escape_def Let_def split: option.splits if_splits dest!: hex4_length)

lemma string_step_length: "string_step cs = Piece p rest \<Longrightarrow> length rest < length cs"
  by (cases cs) (auto split: if_splits list.splits option.splits dest!: unicode_escape_length)

text \<open>The string behind an opening quote, and the input behind its closing quote.\<close>

function scanstring :: "string \<Rightarrow> string \<Rightarrow> (string \<times> string) option" where
  "scanstring acc cs =
     (case string_step cs of
        Bad_string \<Rightarrow> None
      | End_quote rest \<Rightarrow> Some (acc, rest)
      | Piece p rest \<Rightarrow> scanstring (acc @ p) rest)"
  by pat_completeness auto
termination
  by (relation "measure (\<lambda>(acc, cs). length cs)") (auto dest: string_step_length)

declare scanstring.simps [simp del]

text \<open>
  Numbers, after the pattern
  \<^verbatim>\<open>(-?(?:0|[1-9][0-9]*))(\.[0-9]+)?([eE][-+]?[0-9]+)?\<close>: each part gives what it
  matched and the input behind it.
\<close>

definition is_digit :: "char \<Rightarrow> bool" where
  "is_digit c \<longleftrightarrow> 48 \<le> (of_char c :: nat) \<and> (of_char c :: nat) \<le> 57"

definition int_of_digits :: "string \<Rightarrow> int" where
  "int_of_digits ds = foldl (\<lambda>n c. 10 * n + (int (of_char c) - 48)) 0 ds"

definition match_sign :: "string \<Rightarrow> string \<times> string" where
  "match_sign cs = (if prefix ''-'' cs then (''-'', drop 1 cs) else ([], cs))"

definition match_integer :: "string \<Rightarrow> (string \<times> string) option" where
  "match_integer cs =
     (case cs of
        [] \<Rightarrow> None
      | c # rest \<Rightarrow>
          if c = CHR ''0'' then Some (''0'', rest)
          else if is_digit c then Some (c # takeWhile is_digit rest, dropWhile is_digit rest)
          else None)"

definition match_frac :: "string \<Rightarrow> string \<times> string" where
  "match_frac cs =
     (case cs of
        c # d # rest \<Rightarrow>
          if c = CHR ''.'' \<and> is_digit d
          then (c # d # takeWhile is_digit rest, dropWhile is_digit rest)
          else ([], cs)
      | _ \<Rightarrow> ([], cs))"

definition match_exp :: "string \<Rightarrow> string \<times> string" where
  "match_exp cs =
     (case cs of
        [] \<Rightarrow> ([], cs)
      | e # rest \<Rightarrow>
          if e = CHR ''e'' \<or> e = CHR ''E'' then
            (let (sign, rest') =
                   (case rest of
                      [] \<Rightarrow> ([], rest)
                    | s # r \<Rightarrow> if s = CHR ''+'' \<or> s = CHR ''-'' then ([s], r) else ([], rest))
             in if takeWhile is_digit rest' = [] then ([], cs)
                else (e # sign @ takeWhile is_digit rest', dropWhile is_digit rest'))
          else ([], cs))"

text \<open>Without fraction and exponent the number is an \<^verbatim>\<open>int\<close>, else a \<^verbatim>\<open>float\<close>.\<close>

definition match_number :: "string \<Rightarrow> (py_num \<times> string) option" where
  "match_number cs =
     (let (sign, cs1) = match_sign cs in
      case match_integer cs1 of
        None \<Rightarrow> None
      | Some (digits, cs2) \<Rightarrow>
          (let (frac, cs3) = match_frac cs2; (exp, cs4) = match_exp cs3 in
           if frac = [] \<and> exp = []
           then Some (PyInt (if sign = [] then int_of_digits digits
                             else - int_of_digits digits), cs4)
           else Some (PyFloat (FloatLit (sign @ digits @ frac @ exp)), cs4)))"

text \<open>
  The result of scanning a value: the value and the input behind it, a
  \<^verbatim>\<open>JSONDecodeError\<close>, or the end of the fuel that bounds the recursion.
\<close>

datatype scanned = Scanned json string | Invalid | Exhausted

text \<open>\<^verbatim>\<open>dict(pairs)\<close>: a later item with the same key replaces the value of the earlier.\<close>

definition dict_of_pairs :: "(string \<times> json) list \<Rightarrow> (string \<times> json) list" where
  "dict_of_pairs pairs = fold (\<lambda>(k, v). AList.update k v) pairs []"

text \<open>The values that are neither strings nor containers.\<close>

definition scan_constant :: "string \<Rightarrow> scanned" where
  "scan_constant cs =
     (if prefix ''null'' cs then Scanned JNull (drop 4 cs)
      else if prefix ''true'' cs then Scanned (JBool True) (drop 4 cs)
      else if prefix ''false'' cs then Scanned (JBool False) (drop 5 cs)
      else
        (case match_number cs of
           Some (num, rest) \<Rightarrow> Scanned (JNum num) rest
         | None \<Rightarrow>
             if prefix ''NaN'' cs then Scanned (JNum (PyFloat (FloatLit ''NaN''))) (drop 3 cs)
             else if prefix ''Infinity'' cs
               then Scanned (JNum (PyFloat (FloatLit ''Infinity''))) (drop 8 cs)
             else if prefix ''-Infinity'' cs
               then Scanned (JNum (PyFloat (FloatLit ''-Infinity''))) (drop 9 cs)
             else Invalid))"

text \<open>
  \<open>scan_once\<close> reads one value. \<open>scan_array\<close> is the loop over the items of an array,
  at the start of an item; \<open>scan_object\<close> is the loop over the items of an object,
  behind the opening quote of a key. The first argument is the fuel.
\<close>

fun scan_once :: "nat \<Rightarrow> string \<Rightarrow> scanned"
  and scan_array :: "nat \<Rightarrow> json list \<Rightarrow> string \<Rightarrow> scanned"
  and scan_object :: "nat \<Rightarrow> (string \<times> json) list \<Rightarrow> string \<Rightarrow> scanned"
where
  "scan_once 0 cs = Exhausted"
| "scan_once (Suc n) cs =
     (case cs of
        [] \<Rightarrow> Invalid
      | c # rest \<Rightarrow>
          if c = CHR 0x22 then
            (case scanstring [] rest of
               None \<Rightarrow> Invalid
             | Some (s, rest') \<Rightarrow> Scanned (JString s) rest')
          else if c = CHR ''{'' then
            (case skip_ws rest of
               [] \<Rightarrow> Invalid
             | c' # rest' \<Rightarrow>
                 if c' = CHR ''}'' then Scanned (JObject []) rest'
                 else if c' = CHR 0x22 then scan_object n [] rest'
                 else Invalid)
          else if c = CHR ''['' then
            (case skip_ws rest of
               [] \<Rightarrow> Invalid
             | c' # rest' \<Rightarrow>
                 if c' = CHR '']'' then Scanned (JArray []) rest'
                 else scan_array n [] (c' # rest'))
          else scan_constant cs)"
| "scan_array 0 values cs = Exhausted"
| "scan_array (Suc n) values cs =
     (case scan_once n cs of
        Exhausted \<Rightarrow> Exhausted
      | Invalid \<Rightarrow> Invalid
      | Scanned v rest \<Rightarrow>
          (case skip_ws rest of
             [] \<Rightarrow> Invalid
           | c # rest' \<Rightarrow>
               if c = CHR '']'' then Scanned (JArray (values @ [v])) rest'
               else if c = CHR '','' then scan_array n (values @ [v]) (skip_ws rest')
               else Invalid))"
| "scan_object 0 pairs cs = Exhausted"
| "scan_object (Suc n) pairs cs =
     (case scanstring [] cs of
        None \<Rightarrow> Invalid
      | Some (key, rest) \<Rightarrow>
          (case skip_ws rest of
             [] \<Rightarrow> Invalid
           | c # rest' \<Rightarrow>
               if c \<noteq> CHR '':'' then Invalid
               else
                 (case scan_once n (skip_ws rest') of
                    Exhausted \<Rightarrow> Exhausted
                  | Invalid \<Rightarrow> Invalid
                  | Scanned v rest'' \<Rightarrow>
                      (case skip_ws rest'' of
                         [] \<Rightarrow> Invalid
                       | d # rest3 \<Rightarrow>
                           if d = CHR ''}'' then
                             Scanned (JObject (dict_of_pairs (pairs @ [(key, v)]))) rest3
                           else if d = CHR '','' then
                             (case skip_ws rest3 of
                                [] \<Rightarrow> Invalid
                              | q # rest4 \<Rightarrow>
                                  if q = CHR 0x22
                                  then scan_object n (pairs @ [(key, v)]) rest4
                                  else Invalid)
                           else Invalid))))"

text \<open>
  \<^verbatim>\<open>json.loads(s)\<close>: whitespace, one value, whitespace, the end of the text. The
  fuel \<open>2 * len(s) + 1\<close> is never used up (\<open>json_loads_fuel\<close> below), so the last case
  does not occur.
\<close>

definition json_loads :: "string \<Rightarrow> unit + json" where
  "json_loads s =
     (case scan_once (Suc (2 * length s)) (skip_ws s) of
        Scanned v rest \<Rightarrow> if skip_ws rest = [] then Inr v else Inl ()
      | Invalid \<Rightarrow> Inl ()
      | Exhausted \<Rightarrow> Inl ())"

subsection \<open>A recogniser of the fence patterns\<close>

text \<open>
  An automaton that reads a text from left to right and remembers whether it has
  read a line feed or a backtick since the last double quote. It reaches
  \<open>Fence_seen\<close>, and stays there, when it reads a backtick after a line feed or a
  line feed after a backtick with no double quote between the two; both patterns of
  the substitution hold such a pair. It is not part of the notebook: the properties
  below use it to show that a text the decoder accepts holds neither pattern.
\<close>

datatype fence_state = Clean | Saw_newline | Saw_backtick | Fence_seen

fun fence_step :: "fence_state \<Rightarrow> char \<Rightarrow> fence_state" where
  "fence_step Fence_seen c = Fence_seen"
| "fence_step s c =
     (if c = CHR 0x22 then Clean
      else if c = LF then (if s = Saw_backtick then Fence_seen else Saw_newline)
      else if c = CHR 0x60 then (if s = Saw_newline then Fence_seen else Saw_backtick)
      else s)"

definition fence_run :: "fence_state \<Rightarrow> string \<Rightarrow> fence_state" where
  "fence_run s u = foldl fence_step s u"

text \<open>The states in which no backtick is pending.\<close>

definition good :: "fence_state \<Rightarrow> bool" where
  "good s \<longleftrightarrow> s = Clean \<or> s = Saw_newline"

text \<open>A text that leads the automaton from every good state to a good state.\<close>

definition keeps :: "string \<Rightarrow> bool" where
  "keeps u \<longleftrightarrow> (\<forall>s. good s \<longrightarrow> good (fence_run s u))"

abbreviation (input) tick :: char where "tick \<equiv> CHR 0x60"
abbreviation (input) quote :: char where "quote \<equiv> CHR 0x22"

section \<open>Properties\<close>

subsection \<open>The decoder's fuel suffices\<close>

lemma skip_ws_length: "length (skip_ws cs) \<le> length cs"
  by (simp add: skip_ws_def length_dropWhile_le)

lemma skip_ws_Cons_length: "skip_ws cs = c # rest \<Longrightarrow> length rest < length cs"
  using skip_ws_length [of cs] by simp

lemma scanstring_length: "scanstring acc cs = Some (s, rest) \<Longrightarrow> length rest < length cs"
proof (induction acc cs rule: scanstring.induct)
  case (1 acc cs)
  show ?case
  proof (cases "string_step cs")
    case (End_quote r)
    with "1.prems" have "rest = r" by (simp add: scanstring.simps)
    moreover from End_quote have "length r < length cs"
      by (cases cs) (auto simp: unicode_escape_def Let_def split: if_splits list.splits option.splits)
    ultimately show ?thesis by simp
  next
    case (Piece p r)
    with "1.prems" have "scanstring (acc @ p) r = Some (s, rest)" by (simp add: scanstring.simps)
    with "1.IH" Piece have "length rest < length r" by blast
    with string_step_length [OF Piece] show ?thesis by simp
  next
    case Bad_string
    with "1.prems" show ?thesis by (simp add: scanstring.simps)
  qed
qed

lemma match_integer_length: "match_integer cs = Some (ds, rest) \<Longrightarrow> length rest < length cs"
  by (auto simp: match_integer_def split: list.splits if_splits
      intro: le_imp_less_Suc length_dropWhile_le)

lemma match_sign_length: "match_sign cs = (sg, rest) \<Longrightarrow> length rest \<le> length cs"
  by (auto simp: match_sign_def split: if_splits)

lemma match_frac_length: "match_frac cs = (fr, rest) \<Longrightarrow> length rest \<le> length cs"
  by (auto simp: match_frac_def split: list.splits if_splits
      intro: le_SucI length_dropWhile_le)

lemma match_exp_length: "match_exp cs = (ex, rest) \<Longrightarrow> length rest \<le> length cs"
  by (auto simp: match_exp_def Let_def split: list.splits if_splits prod.splits
      intro: le_SucI length_dropWhile_le)

lemma match_number_length: "match_number cs = Some (v, rest) \<Longrightarrow> length rest < length cs"
proof -
  assume a: "match_number cs = Some (v, rest)"
  obtain sg cs1 where s: "match_sign cs = (sg, cs1)" by (cases "match_sign cs")
  from a s obtain ds cs2 where i: "match_integer cs1 = Some (ds, cs2)"
    by (auto simp: match_number_def split: option.splits)
  obtain fr cs3 where f: "match_frac cs2 = (fr, cs3)" by (cases "match_frac cs2")
  obtain ex cs4 where e: "match_exp cs3 = (ex, cs4)" by (cases "match_exp cs3")
  from a s i f e have "rest = cs4"
    by (auto simp: match_number_def split: if_splits)
  with match_sign_length [OF s] match_integer_length [OF i] match_frac_length [OF f]
    match_exp_length [OF e]
  show ?thesis by simp
qed

lemma scan_constant_length: "scan_constant cs = Scanned v rest \<Longrightarrow> length rest < length cs"
  by (auto simp: scan_constant_def prefix_def split: if_splits option.splits dest: match_number_length)

lemma scan_length_all:
  "(\<forall>cs v rest. scan_once n cs = Scanned v rest \<longrightarrow> length rest < length cs)
   \<and> (\<forall>vs cs v rest. scan_array n vs cs = Scanned v rest \<longrightarrow> length rest < length cs)
   \<and> (\<forall>ps cs v rest. scan_object n ps cs = Scanned v rest \<longrightarrow> length rest < length cs)"
proof (induction n)
  case 0
  show ?case by simp
next
  case (Suc n)
  then have once: "\<And>cs v rest. scan_once n cs = Scanned v rest \<Longrightarrow> length rest < length cs"
    and array: "\<And>vs cs v rest. scan_array n vs cs = Scanned v rest \<Longrightarrow> length rest < length cs"
    and object: "\<And>ps cs v rest. scan_object n ps cs = Scanned v rest \<Longrightarrow> length rest < length cs"
    by blast+
  have ws: "\<And>cs c r. skip_ws cs = c # r \<Longrightarrow> length r < length cs"
    by (rule skip_ws_Cons_length)
  have "length rest < length cs" if "scan_once (Suc n) cs = Scanned v rest" for cs v rest
    using that
    by (auto split: list.splits if_splits option.splits
        dest!: scanstring_length ws scan_constant_length array object)
  moreover have "length rest < length cs" if "scan_array (Suc n) vs cs = Scanned v rest"
    for vs cs v rest
  proof -
    from that obtain w r1 where 1: "scan_once n cs = Scanned w r1"
      by (auto split: scanned.splits)
    from that 1 obtain c r2 where 2: "skip_ws r1 = c # r2"
      by (auto split: list.splits)
    from that 1 2 have "rest = r2 \<or> scan_array n (vs @ [w]) (skip_ws r2) = Scanned v rest"
      by (auto split: if_splits)
    then have "length rest \<le> length r2"
      using array [of "vs @ [w]" "skip_ws r2" v rest] skip_ws_length [of r2] by auto
    with once [OF 1] ws [OF 2] show ?thesis by simp
  qed
  moreover have "length rest < length cs" if "scan_object (Suc n) ps cs = Scanned v rest"
    for ps cs v rest
  proof -
    from that obtain key r1 where 1: "scanstring [] cs = Some (key, r1)"
      by (auto split: option.splits)
    from that 1 obtain c r2 where 2: "skip_ws r1 = c # r2"
      by (auto split: list.splits)
    from that 1 2 obtain w r3 where 3: "scan_once n (skip_ws r2) = Scanned w r3"
      by (auto split: if_splits scanned.splits)
    from that 1 2 3 obtain d r4 where 4: "skip_ws r3 = d # r4"
      by (auto split: if_splits list.splits)
    from that 1 2 3 4 have
      "rest = r4 \<or> (\<exists>q r5. skip_ws r4 = q # r5 \<and> scan_object n (ps @ [(key, w)]) r5 = Scanned v rest)"
      by (auto split: if_splits list.splits)
    then have "length rest \<le> length r4"
      using object ws by fastforce
    with scanstring_length [OF 1] ws [OF 2] once [OF 3] skip_ws_length [of r2] ws [OF 4]
    show ?thesis by simp
  qed
  ultimately show ?case by blast
qed

lemma scan_fuel_all:
  "(\<forall>cs. 2 * length cs < n \<longrightarrow> scan_once n cs \<noteq> Exhausted)
   \<and> (\<forall>vs cs. 2 * length cs + 1 < n \<longrightarrow> scan_array n vs cs \<noteq> Exhausted)
   \<and> (\<forall>ps cs. 2 * length cs < n \<longrightarrow> scan_object n ps cs \<noteq> Exhausted)"
proof (induction n)
  case 0
  show ?case by simp
next
  case (Suc n)
  then have once: "\<And>cs. 2 * length cs < n \<Longrightarrow> scan_once n cs \<noteq> Exhausted"
    and array: "\<And>vs cs. 2 * length cs + 1 < n \<Longrightarrow> scan_array n vs cs \<noteq> Exhausted"
    and object: "\<And>ps cs. 2 * length cs < n \<Longrightarrow> scan_object n ps cs \<noteq> Exhausted"
    by blast+
  have ws: "\<And>cs c r. skip_ws cs = c # r \<Longrightarrow> length r < length cs"
    by (rule skip_ws_Cons_length)
  note shorter = scan_length_all [of n, THEN conjunct1, rule_format]
  have "scan_once (Suc n) cs \<noteq> Exhausted" if "2 * length cs < Suc n" for cs
  proof (cases cs)
    case Nil
    then show ?thesis by simp
  next
    case (Cons c rest)
    have const: "scan_constant cs \<noteq> Exhausted"
      by (simp add: scan_constant_def split: option.splits)
    have obj: "scan_object n [] r \<noteq> Exhausted" if "skip_ws rest = q # r" for q r
      using ws [OF that] \<open>2 * length cs < Suc n\<close> Cons by (intro object) simp
    have arr: "scan_array n [] (q # r) \<noteq> Exhausted" if "skip_ws rest = q # r" for q r
      using ws [OF that] \<open>2 * length cs < Suc n\<close> Cons by (intro array) simp
    show ?thesis
      using const obj arr Cons by (auto split: option.splits list.splits)
  qed
  moreover have "scan_array (Suc n) vs cs \<noteq> Exhausted" if "2 * length cs + 1 < Suc n" for vs cs
  proof -
    have 1: "scan_once n cs \<noteq> Exhausted"
      using that by (intro once) simp
    have 2: "scan_array n (vs @ [w]) (skip_ws r2) \<noteq> Exhausted"
      if "scan_once n cs = Scanned w r1" "skip_ws r1 = c # r2" for w r1 c r2
      using shorter [OF that(1)] ws [OF that(2)] skip_ws_length [of r2] \<open>2 * length cs + 1 < Suc n\<close>
      by (intro array) simp
    show ?thesis
      using 1 2 by (auto split: scanned.splits list.splits)
  qed
  moreover have "scan_object (Suc n) ps cs \<noteq> Exhausted" if "2 * length cs < Suc n" for ps cs
  proof -
    have 1: "scan_once n (skip_ws r2) \<noteq> Exhausted"
      if "scanstring [] cs = Some (key, r1)" "skip_ws r1 = c # r2" for key r1 c r2
      using scanstring_length [OF that(1)] ws [OF that(2)] skip_ws_length [of r2]
        \<open>2 * length cs < Suc n\<close>
      by (intro once) simp
    have 2: "scan_object n (ps @ [(key, w)]) r5 \<noteq> Exhausted"
      if "scanstring [] cs = Some (key, r1)" "skip_ws r1 = c # r2"
        "scan_once n (skip_ws r2) = Scanned w r3" "skip_ws r3 = d # r4" "skip_ws r4 = q # r5"
      for key r1 c r2 w r3 d r4 q r5
      using scanstring_length [OF that(1)] ws [OF that(2)] skip_ws_length [of r2]
        shorter [OF that(3)] ws [OF that(4)] ws [OF that(5)] \<open>2 * length cs < Suc n\<close>
      by (intro object) simp
    show ?thesis
      using 1 2 by (auto split: option.splits scanned.splits list.splits)
  qed
  ultimately show ?case by blast
qed

lemma json_loads_fuel: "scan_once (Suc (2 * length s)) (skip_ws s) \<noteq> Exhausted"
  using scan_fuel_all [of "Suc (2 * length s)"] skip_ws_length [of s] by simp

subsection \<open>Bounding-box conversion\<close>

text \<open>
  Claim C2. For every four-element box \<open>[x, y, w, h]\<close> with \<open>w, h \<ge> 0\<close> the
  conversion returns exactly \<open>[x, y, x + w, y + h]\<close>: the third entry of the result is
  the first plus the width and the fourth is the second plus the height.
\<close>

theorem convert_bbox_coco_to_xyxy_corners:
  fixes x y w h :: "'a::{plus,zero,ord}"
  assumes "0 \<le> w" and "0 \<le> h"
  shows "\<exists>x1 y1 x2 y2. convert_bbox_coco_to_xyxy [x, y, w, h] = Inr [x1, y1, x2, y2]
           \<and> [x1, y1, x2, y2] = [x, y, x + w, y + h] \<and> x2 = x1 + w \<and> y2 = y1 + h"
  by (simp add: convert_bbox_coco_to_xyxy_def list_getitem_def)

theorem convert_bbox_coco_to_xyxy_corners_witness:
  "(0::int) \<le> 50 \<and> convert_bbox_coco_to_xyxy [10, 10, 50, 50 :: int] = Inr [10, 10, 60, 60]"
  using convert_bbox_coco_to_xyxy_corners [of "50::int" 50 10 10] by simp

subsection \<open>Label mapping\<close>

lemma dict_setitem_apply:
  "dict_setitem (i, v) m k = (if k = i then Some v else m k)"
  by (simp add: dict_setitem_def)

lemma fold_enumerate_from:
  "fold dict_setitem (enumerate_from s xs) m k =
     (if s \<le> k \<and> k < s + int (length xs) then Some (xs ! nat (k - s)) else m k)"
proof (induction xs arbitrary: s m)
  case Nil
  show ?case by auto
next
  case (Cons x xs)
  have "fold dict_setitem (enumerate_from s (x # xs)) m k =
        fold dict_setitem (enumerate_from (s + 1) xs) (dict_setitem (s, x) m) k"
    by simp
  also have "\<dots> = (if s + 1 \<le> k \<and> k < s + 1 + int (length xs)
                     then Some (xs ! nat (k - (s + 1))) else dict_setitem (s, x) m k)"
    by (rule Cons.IH)
  also have "\<dots> = (if s \<le> k \<and> k < s + int (length (x # xs))
                     then Some ((x # xs) ! nat (k - s)) else m k)"
  proof -
    have "nat (k - (s + 1)) = nat (k - s) - Suc 0"
      by arith
    then show ?thesis
      by (auto simp: dict_setitem_apply nth_Cons')
  qed
  finally show ?case .
qed

text \<open>
  Claim C5. The label mapping is 1-indexed: the id \<open>i\<close> with \<open>1 \<le> i \<le> len(labels)\<close>
  is mapped to the \<open>i\<close>-th label, counting from one (so \<open>["a","b","c"]\<close> gives
  \<open>1 \<mapsto> "a"\<close>, \<open>2 \<mapsto> "b"\<close>, \<open>3 \<mapsto> "c"\<close>), and the lookup of any other category
  id raises \<open>KeyError\<close>: there is no default.
\<close>

theorem labels_mapping_one_indexed:
  "(\<forall>i. 1 \<le> i \<and> i \<le> int (length labels) \<longrightarrow>
        dict_getitem (labels_mapping labels) i = Inr (labels ! nat (i - 1)))
   \<and> (\<forall>k. k < 1 \<or> int (length labels) < k \<longrightarrow>
        dict_getitem (labels_mapping labels) k = Inl (KeyError k))"
  by (auto simp: dict_getitem_def labels_mapping_def fold_enumerate_from)

theorem labels_mapping_one_indexed_witness:
  "dict_getitem (labels_mapping [''a'', ''b'', ''c'']) 1 = Inr ''a''
   \<and> dict_getitem (labels_mapping [''a'', ''b'', ''c'']) 2 = Inr ''b''
   \<and> dict_getitem (labels_mapping [''a'', ''b'', ''c'']) 3 = Inr ''c''
   \<and> dict_getitem (labels_mapping [''a'', ''b'', ''c'']) 4 = Inl (KeyError 4)"
proof -
  let ?labels = "[''a'', ''b'', ''c'']"
  have inside: "\<forall>i. 1 \<le> i \<and> i \<le> int (length ?labels) \<longrightarrow>
      dict_getitem (labels_mapping ?labels) i = Inr (?labels ! nat (i - 1))"
    and outside: "\<forall>k. k < 1 \<or> int (length ?labels) < k \<longrightarrow>
      dict_getitem (labels_mapping ?labels) k = Inl (KeyError k)"
    using labels_mapping_one_indexed [of ?labels] by blast+
  from inside [rule_format, of 1] inside [rule_format, of 2] inside [rule_format, of 3]
    outside [rule_format, of 4]
  show ?thesis by simp
qed

subsection \<open>Cropping\<close>









subsection \<open>Fence stripping\<close>

lemma prefix_open_close:
  assumes "prefix fence_open (u @ fence_close)"
  shows "prefix fence_open (u @ [LF])"
  using assms unfolding fence_open_def fence_close_def LF_def
  by (auto simp: prefix_append prefix_Cons append_eq_Cons_conv Cons_eq_append_conv)

lemma prefix_close_close:
  assumes "prefix fence_close (u @ fence_close)" and "u \<noteq> []"
  shows "prefix fence_close u"
  using assms unfolding fence_open_def fence_close_def
  by (auto simp: prefix_append prefix_Cons append_eq_Cons_conv Cons_eq_append_conv)

lemma re_sub_fence_body:
  assumes "\<not> sublist fence_close body" and "\<not> sublist fence_open (body @ [LF])"
  shows "re_sub_fence (body @ fence_close) = body"
  using assms
proof (induction body)
  case Nil
  show ?case by (simp add: fence_open_def fence_close_def)
next
  case (Cons c cs)
  from Cons.prems have no_close: "\<not> prefix fence_close (c # cs)"
    and rest_close: "\<not> sublist fence_close cs"
    by (auto simp: sublist_Cons_right)
  from Cons.prems have no_open: "\<not> prefix fence_open ((c # cs) @ [LF])"
    and rest_open: "\<not> sublist fence_open (cs @ [LF])"
    by (auto simp: sublist_Cons_right)
  have a: "\<not> prefix fence_open ((c # cs) @ fence_close)"
    using no_open prefix_open_close by blast
  have b: "\<not> prefix fence_close ((c # cs) @ fence_close)"
    using no_close prefix_close_close [of "c # cs"] by blast
  have "re_sub_fence ((c # cs) @ fence_close) = c # re_sub_fence (cs @ fence_close)"
    using a b by simp
  with Cons.IH [OF rest_close rest_open] show ?case by simp
qed

lemma re_sub_fence_open: "re_sub_fence (fence_open @ s) = re_sub_fence s"
  by (simp add: fence_open_def)

lemma re_sub_fence_close: "re_sub_fence (fence_close @ s) = re_sub_fence s"
  by (simp add: fence_close_def fence_open_def)

lemma re_sub_fence_fenced:
  assumes "\<not> sublist fence_close body" and "\<not> sublist fence_open (body @ [LF])"
  shows "re_sub_fence (fence_open @ body @ fence_close) = body"
  by (simp add: re_sub_fence_open re_sub_fence_body assms)

text \<open>
  Text without a backtick that does not end in a line feed is kept as it is, and a
  pattern behind it is deleted wherever in the response it stands.
\<close>

lemma re_sub_fence_plain:
  assumes "CHR 0x60 \<notin> set u" and "u = [] \<or> last u \<noteq> LF"
  shows "re_sub_fence (u @ fence_open @ v) = u @ re_sub_fence v"
    and "re_sub_fence (u @ fence_close @ v) = u @ re_sub_fence v"
  using assms
proof (induction u)
  case Nil
  {
    case 1 show ?case by (simp add: re_sub_fence_open)
  next
    case 2 show ?case by (simp add: re_sub_fence_close)
  }
next
  case (Cons c cs)
  {
    case 1
    then have c: "c \<noteq> CHR 0x60" and cs: "CHR 0x60 \<notin> set cs" "cs = [] \<or> last cs \<noteq> LF"
      and lf: "cs = [] \<longrightarrow> c \<noteq> LF"
      by (auto split: if_splits)
    have a: "\<not> prefix fence_open (c # cs @ fence_open @ v)"
      using c by (simp add: fence_open_def)
    have b: "\<not> prefix fence_close (c # cs @ fence_open @ v)"
      using cs lf by (cases cs) (auto simp: fence_open_def fence_close_def LF_def)
    from a b have "re_sub_fence ((c # cs) @ fence_open @ v) = c # re_sub_fence (cs @ fence_open @ v)"
      by simp
    with Cons.IH(1) [OF cs] show ?case by simp
  next
    case 2
    then have c: "c \<noteq> CHR 0x60" and cs: "CHR 0x60 \<notin> set cs" "cs = [] \<or> last cs \<noteq> LF"
      and lf: "cs = [] \<longrightarrow> c \<noteq> LF"
      by (auto split: if_splits)
    have a: "\<not> prefix fence_open (c # cs @ fence_close @ v)"
      using c by (simp add: fence_open_def)
    have b: "\<not> prefix fence_close (c # cs @ fence_close @ v)"
      using cs lf by (cases cs) (auto simp: fence_open_def fence_close_def LF_def)
    from a b have "re_sub_fence ((c # cs) @ fence_close @ v) = c # re_sub_fence (cs @ fence_close @ v)"
      by simp
    with Cons.IH(2) [OF cs] show ?case by simp
  }
qed


text \<open>
  Claim C10. The substitution deletes the matches the scan finds from left to right,
  which are not all the occurrences of the two patterns: in a response whose opening
  fence follows a line feed, the closing pattern matches at that line feed and takes
  the three backticks with it, so the occurrence of the opening pattern is not
  deleted and \<^verbatim>\<open>json\<close> with its line feed stays in front of the document. The
  decoder then rejects the text, although it accepts the document inside the fence.
\<close>

theorem re_sub_fence_newline_before_fence:
  \<open>re_sub_fence ''\<newline>```json\<newline>{"correct": true}\<newline>```'' = ''json\<newline>{"correct": true}''
   \<and> json_loads (fence_strip ''\<newline>```json\<newline>{"correct": true}\<newline>```'') = Inl ()
   \<and> json_loads ''{"correct": true}'' = Inr (JObject [(''correct'', JBool True)])\<close>
  by code_simp

subsection \<open>A text the decoder accepts holds no fence pattern\<close>

text \<open>
  In a JSON document a line feed stands only between tokens and a backtick only
  inside a string, and a string holds no line feed: so no backtick is next to a line
  feed, and neither pattern of the substitution occurs.
\<close>

lemma fence_run_simps [simp]:
  "fence_run s [] = s"
  "fence_run s (c # cs) = fence_run (fence_step s c) cs"
  "fence_run s (u @ v) = fence_run (fence_run s u) v"
  by (simp_all add: fence_run_def)

lemma fence_run_seen [simp]: "fence_run Fence_seen u = Fence_seen"
  by (induction u) simp_all

lemma fence_run_close: "fence_run s fence_close = Fence_seen"
  by (cases s) (simp_all add: fence_close_def LF_def)

lemma fence_run_open: "fence_run s fence_open = Fence_seen"
  by (cases s) (simp_all add: fence_open_def LF_def)

lemma sublist_fence_seen:
  assumes "sublist fence_close u \<or> sublist fence_open u"
  shows "fence_run s u = Fence_seen"
  using assms by (auto simp: sublist_def fence_run_close fence_run_open)

lemma keeps_Nil [simp]: "keeps []"
  by (simp add: keeps_def)

lemma keeps_append: "keeps u \<Longrightarrow> keeps v \<Longrightarrow> keeps (u @ v)"
  by (simp add: keeps_def)

lemma keeps_plain: "CHR 0x60 \<notin> set u \<Longrightarrow> keeps u"
proof (induction u)
  case Nil
  show ?case by simp
next
  case (Cons c cs)
  then have "keeps cs" by simp
  moreover from Cons.prems have "good s \<Longrightarrow> good (fence_step s c)" for s
    by (cases s) (auto simp: good_def)
  ultimately show ?case
    by (simp add: keeps_def)
qed

lemma string_body_run:
  assumes "LF \<notin> set u" and "s = Clean \<or> s = Saw_backtick"
  shows "fence_run s u = Clean \<or> fence_run s u = Saw_backtick"
  using assms
proof (induction u arbitrary: s)
  case Nil
  then show ?case by simp
next
  case (Cons c cs)
  from Cons.prems have "fence_step s c = Clean \<or> fence_step s c = Saw_backtick"
    by (auto split: if_splits)
  with Cons.IH [of "fence_step s c"] Cons.prems show ?case by simp
qed

lemma string_token_run:
  assumes "LF \<notin> set u"
  shows "fence_run Clean (u @ [CHR 0x22]) = Clean"
  using string_body_run [OF assms, of Clean] by auto

lemma skip_ws_consumed: "\<exists>u. cs = u @ skip_ws cs \<and> tick \<notin> set u"
proof -
  have "cs = takeWhile json_ws cs @ skip_ws cs"
    by (simp add: skip_ws_def)
  moreover have "tick \<notin> set (takeWhile json_ws cs)"
    by (auto dest!: set_takeWhileD simp: json_ws_def)
  ultimately show ?thesis by blast
qed

lemma keeps_skip_ws: "\<exists>u. cs = u @ skip_ws cs \<and> keeps u"
  using skip_ws_consumed [of cs] keeps_plain by blast

lemma is_digit_not_tick: "is_digit c \<Longrightarrow> c \<noteq> tick"
  by (auto simp: is_digit_def)

lemma digits_no_tick: "tick \<notin> set (takeWhile is_digit cs)"
  by (auto dest!: set_takeWhileD is_digit_not_tick)

lemma match_sign_consumed: "match_sign cs = (sg, rest) \<Longrightarrow> cs = sg @ rest \<and> tick \<notin> set sg"
  by (auto simp: match_sign_def prefix_def split: if_splits)

lemma match_integer_consumed:
  "match_integer cs = Some (ds, rest) \<Longrightarrow> cs = ds @ rest \<and> tick \<notin> set ds"
  by (auto simp: match_integer_def digits_no_tick split: list.splits if_splits
      dest: is_digit_not_tick)

lemma match_frac_consumed: "match_frac cs = (fr, rest) \<Longrightarrow> cs = fr @ rest \<and> tick \<notin> set fr"
  by (auto simp: match_frac_def digits_no_tick split: list.splits if_splits
      dest: is_digit_not_tick)

lemma match_exp_consumed: "match_exp cs = (ex, rest) \<Longrightarrow> cs = ex @ rest \<and> tick \<notin> set ex"
proof (cases cs)
  case Nil
  then show "match_exp cs = (ex, rest) \<Longrightarrow> ?thesis"
    by (simp add: match_exp_def)
next
  case (Cons e r)
  assume a: "match_exp cs = (ex, rest)"
  show ?thesis
  proof (cases "e = CHR ''e'' \<or> e = CHR ''E''")
    case False
    with a Cons show ?thesis by (auto simp: match_exp_def)
  next
    case True
    define sr where "sr = (case r of [] \<Rightarrow> ([], r)
        | s # r' \<Rightarrow> if s = CHR ''+'' \<or> s = CHR ''-'' then ([s], r') else ([], r))"
    obtain sign r' where sr: "sr = (sign, r')" by (cases sr)
    then have split: "r = sign @ r'" and sign: "tick \<notin> set sign"
      by (auto simp: sr_def split: list.splits if_splits)
    have ex: "match_exp cs =
        (if takeWhile is_digit r' = [] then ([], cs)
         else (e # sign @ takeWhile is_digit r', dropWhile is_digit r'))"
      using True Cons sr by (auto simp: match_exp_def sr_def)
    show ?thesis
    proof (cases "takeWhile is_digit r' = []")
      case True
      with a ex show ?thesis by simp
    next
      case False
      with a ex have "ex = e # sign @ takeWhile is_digit r'" "rest = dropWhile is_digit r'"
        by simp_all
      with Cons split sign \<open>e = CHR ''e'' \<or> e = CHR ''E''\<close> show ?thesis
        by (auto simp: digits_no_tick)
    qed
  qed
qed

lemma match_number_consumed:
  assumes "match_number cs = Some (v, rest)"
  shows "\<exists>u. cs = u @ rest \<and> tick \<notin> set u"
proof -
  obtain sg cs1 where s: "match_sign cs = (sg, cs1)" by (cases "match_sign cs")
  from assms s obtain ds cs2 where i: "match_integer cs1 = Some (ds, cs2)"
    by (auto simp: match_number_def split: option.splits)
  obtain fr cs3 where f: "match_frac cs2 = (fr, cs3)" by (cases "match_frac cs2")
  obtain ex cs4 where e: "match_exp cs3 = (ex, cs4)" by (cases "match_exp cs3")
  from assms s i f e have "rest = cs4"
    by (auto simp: match_number_def split: if_splits)
  with match_sign_consumed [OF s] match_integer_consumed [OF i] match_frac_consumed [OF f]
    match_exp_consumed [OF e]
  have "cs = (sg @ ds @ fr @ ex) @ rest \<and> tick \<notin> set (sg @ ds @ fr @ ex)"
    by simp
  then show ?thesis by blast
qed

lemma prefix_consumed: "prefix p cs \<Longrightarrow> cs = p @ drop (length p) cs"
  by (auto simp: prefix_def)

lemma prefix_plain:
  assumes "prefix p cs" and "tick \<notin> set p" and "rest = drop (length p) cs"
  shows "\<exists>u. cs = u @ rest \<and> tick \<notin> set u"
  using assms by (auto simp: prefix_def)

lemma scan_constant_consumed:
  assumes "scan_constant cs = Scanned v rest"
  shows "\<exists>u. cs = u @ rest \<and> keeps u"
proof -
  have "\<exists>u. cs = u @ rest \<and> tick \<notin> set u"
  proof -
    consider (null) "prefix ''null'' cs" "rest = drop 4 cs"
      | (true) "prefix ''true'' cs" "rest = drop 4 cs"
      | (false) "prefix ''false'' cs" "rest = drop 5 cs"
      | (number) num where "match_number cs = Some (num, rest)"
      | (nan) "prefix ''NaN'' cs" "rest = drop 3 cs"
      | (inf) "prefix ''Infinity'' cs" "rest = drop 8 cs"
      | (neginf) "prefix ''-Infinity'' cs" "rest = drop 9 cs"
      using assms by (auto simp: scan_constant_def split: if_splits option.splits)
    then show ?thesis
    proof cases
      case null then show ?thesis by (intro prefix_plain [of "''null''"]) (simp_all add: eval_nat_numeral)
    next
      case true then show ?thesis by (intro prefix_plain [of "''true''"]) (simp_all add: eval_nat_numeral)
    next
      case false then show ?thesis by (intro prefix_plain [of "''false''"]) (simp_all add: eval_nat_numeral)
    next
      case number then show ?thesis by (rule match_number_consumed)
    next
      case nan then show ?thesis by (intro prefix_plain [of "''NaN''"]) (simp_all add: eval_nat_numeral)
    next
      case inf then show ?thesis by (intro prefix_plain [of "''Infinity''"]) (simp_all add: eval_nat_numeral)
    next
      case neginf then show ?thesis by (intro prefix_plain [of "''-Infinity''"]) (simp_all add: eval_nat_numeral)
    qed
  qed
  then show ?thesis
    using keeps_plain by blast
qed

lemma hex_digit_not_LF: "hex_digit c = Some h \<Longrightarrow> c \<noteq> LF"
  by (auto simp: hex_digit_def LF_def Let_def split: if_splits)

lemma hex4_consumed:
  "hex4 cs = Some u \<Longrightarrow> cs = take 4 cs @ drop 4 cs \<and> LF \<notin> set (take 4 cs)"
  by (induction cs rule: hex4.induct)
     (auto split: option.splits dest: hex_digit_not_LF)

lemma unicode_escape_consumed:
  assumes "unicode_escape cs = Piece p rest"
  shows "\<exists>u. cs = u @ rest \<and> LF \<notin> set u"
proof -
  from assms obtain h where h: "hex4 cs = Some h"
    by (auto simp: unicode_escape_def split: option.splits)
  define d4 where "d4 = drop 4 cs"
  from hex4_consumed [OF h] have first: "cs = take 4 cs @ d4" "LF \<notin> set (take 4 cs)"
    by (simp_all add: d4_def)
  show ?thesis
  proof (cases "rest = d4")
    case True
    with first show ?thesis by metis
  next
    case False
    define d2 where "d2 = drop 2 d4"
    from False assms h obtain h2 where h2: "hex4 d2 = Some h2"
      and pre: "prefix [CHR 0x5C, CHR ''u''] d4"
      and rest: "rest = drop 6 d4"
      unfolding d4_def d2_def
      by (auto simp: unicode_escape_def Let_def split: option.splits if_splits)
    from hex4_consumed [OF h2] have second: "d2 = take 4 d2 @ drop 4 d2" "LF \<notin> set (take 4 d2)"
      by simp_all
    from pre have mid: "d4 = [CHR 0x5C, CHR ''u''] @ d2"
      by (auto simp: prefix_def d2_def)
    have "drop 4 d2 = rest"
      using rest by (simp add: d2_def)
    with first second mid
    have "cs = (take 4 cs @ [CHR 0x5C, CHR ''u''] @ take 4 d2) @ rest"
      by (metis append.assoc)
    moreover have "LF \<notin> set (take 4 cs @ [CHR 0x5C, CHR ''u''] @ take 4 d2)"
      using first second by (simp add: LF_def)
    ultimately show ?thesis by blast
  qed
qed

lemma simple_escape_not_LF: "simple_escape e = Some ch \<Longrightarrow> e \<noteq> LF"
  by (auto simp: simple_escape_def LF_def split: if_splits)

lemma string_step_piece:
  assumes "string_step cs = Piece p rest"
  shows "\<exists>u. cs = u @ rest \<and> LF \<notin> set u"
proof (cases cs)
  case Nil
  with assms show ?thesis by simp
next
  case (Cons c cs')
  show ?thesis
  proof (cases "c = CHR 0x5C")
    case False
    with assms Cons have "rest = cs'" and "c \<noteq> LF"
      by (auto simp: LF_def split: if_splits)
    with Cons show ?thesis by (intro exI [of _ "[c]"]) simp
  next
    case True
    with assms Cons obtain e cs'' where e: "cs' = e # cs''"
      by (cases cs') (auto split: if_splits)
    show ?thesis
    proof (cases "e = CHR ''u''")
      case True
      with assms Cons \<open>c = CHR 0x5C\<close> e have "unicode_escape cs'' = Piece p rest"
        by simp
      from unicode_escape_consumed [OF this] obtain u where "cs'' = u @ rest" "LF \<notin> set u"
        by blast
      with Cons \<open>c = CHR 0x5C\<close> e True show ?thesis
        by (intro exI [of _ "c # e # u"]) (simp add: LF_def)
    next
      case False
      with assms Cons \<open>c = CHR 0x5C\<close> e have "rest = cs''" and "e \<noteq> LF"
        by (auto split: option.splits dest: simple_escape_not_LF)
      with Cons \<open>c = CHR 0x5C\<close> e show ?thesis
        by (intro exI [of _ "[c, e]"]) (simp add: LF_def)
    qed
  qed
qed

lemma string_step_end: "string_step cs = End_quote rest \<Longrightarrow> cs = quote # rest"
  by (cases cs) (auto simp: unicode_escape_def Let_def split: if_splits list.splits option.splits)

lemma scanstring_consumed:
  "scanstring acc cs = Some (s, rest) \<Longrightarrow> \<exists>u. cs = u @ quote # rest \<and> LF \<notin> set u"
proof (induction acc cs rule: scanstring.induct)
  case (1 acc cs)
  show ?case
  proof (cases "string_step cs")
    case (End_quote r)
    with "1.prems" have "rest = r" by (simp add: scanstring.simps)
    with string_step_end [OF End_quote] show ?thesis
      by (intro exI [of _ "[]"]) simp
  next
    case (Piece p r)
    with "1.prems" have "scanstring (acc @ p) r = Some (s, rest)"
      by (simp add: scanstring.simps)
    with "1.IH" Piece obtain u where u: "r = u @ quote # rest" "LF \<notin> set u" by blast
    from string_step_piece [OF Piece] obtain w where w: "cs = w @ r" "LF \<notin> set w" by blast
    from u w show ?thesis
      by (intro exI [of _ "w @ u"]) simp
  next
    case Bad_string
    with "1.prems" show ?thesis by (simp add: scanstring.simps)
  qed
qed

lemma scanstring_run:
  assumes "scanstring acc cs = Some (s, rest)"
  shows "\<exists>u. cs = u @ rest \<and> fence_run Clean u = Clean"
proof -
  from scanstring_consumed [OF assms] obtain u where "cs = u @ quote # rest" "LF \<notin> set u"
    by blast
  then have "cs = (u @ [quote]) @ rest" "fence_run Clean (u @ [quote]) = Clean"
    using string_token_run by simp_all
  then show ?thesis by blast
qed

lemma good_step_quote: "good s \<Longrightarrow> fence_step s quote = Clean"
  by (cases s) (simp_all add: good_def)

lemma keeps_char: "c \<noteq> tick \<Longrightarrow> keeps [c]"
  by (rule keeps_plain) simp

lemma keeps_then_string:
  assumes "keeps t" and "good (fence_run Clean u)"
  shows "keeps (t @ quote # u)"
  unfolding keeps_def
proof (intro allI impI)
  fix s assume "good s"
  with assms(1) have "good (fence_run s t)" by (simp add: keeps_def)
  then have "fence_step (fence_run s t) quote = Clean" by (rule good_step_quote)
  with assms(2) show "good (fence_run s (t @ quote # u))" by simp
qed

lemma string_then_keeps:
  assumes "fence_run Clean k = Clean" and "keeps t"
  shows "good (fence_run Clean (k @ t))"
  using assms by (simp add: keeps_def good_def)

lemma string_then_keeps_then_string:
  assumes "fence_run Clean k = Clean" and "keeps t" and "good (fence_run Clean u)"
  shows "good (fence_run Clean (k @ t @ quote # u))"
proof -
  from keeps_then_string [OF assms(2,3)] have "keeps (t @ quote # u)" .
  from string_then_keeps [OF assms(1) this] show ?thesis .
qed

lemma skip_ws_Cons_consumed:
  assumes "skip_ws cs = c # r"
  shows "\<exists>w. cs = w @ c # r \<and> keeps w"
  using keeps_skip_ws [of cs] assms by simp

lemma scan_consumed_all:
  "(\<forall>cs v rest. scan_once n cs = Scanned v rest \<longrightarrow> (\<exists>u. cs = u @ rest \<and> keeps u))
   \<and> (\<forall>vs cs v rest. scan_array n vs cs = Scanned v rest \<longrightarrow> (\<exists>u. cs = u @ rest \<and> keeps u))
   \<and> (\<forall>ps cs v rest. scan_object n ps cs = Scanned v rest \<longrightarrow>
        (\<exists>u. cs = u @ rest \<and> good (fence_run Clean u)))"
proof (induction n)
  case 0
  show ?case by simp
next
  case (Suc n)
  then have once: "\<And>cs v rest. scan_once n cs = Scanned v rest \<Longrightarrow> \<exists>u. cs = u @ rest \<and> keeps u"
    and array: "\<And>vs cs v rest. scan_array n vs cs = Scanned v rest \<Longrightarrow> \<exists>u. cs = u @ rest \<and> keeps u"
    and object: "\<And>ps cs v rest. scan_object n ps cs = Scanned v rest \<Longrightarrow>
        \<exists>u. cs = u @ rest \<and> good (fence_run Clean u)"
    by blast+
  have "\<exists>u. cs = u @ rest \<and> keeps u" if a: "scan_once (Suc n) cs = Scanned v rest" for cs v rest
  proof (cases cs)
    case Nil
    with a show ?thesis by simp
  next
    case (Cons c r)
    consider (str) "c = quote" | (obj) "c = CHR ''{''" | (arr) "c = CHR ''[''"
      | (const) "c \<noteq> quote" "c \<noteq> CHR ''{''" "c \<noteq> CHR ''[''"
      by blast
    then show ?thesis
    proof cases
      case str
      with a Cons obtain s where "scanstring [] r = Some (s, rest)"
        by (auto split: option.splits)
      from scanstring_run [OF this] obtain u where "r = u @ rest" "fence_run Clean u = Clean"
        by blast
      with keeps_then_string [of "[]" u] Cons str show ?thesis
        by (intro exI [of _ "quote # u"]) (simp add: good_def)
    next
      case obj
      with a Cons obtain c' r' where ws: "skip_ws r = c' # r'"
        by (auto split: list.splits)
      from skip_ws_Cons_consumed [OF ws] obtain w where w: "r = w @ c' # r'" "keeps w"
        by blast
      have open_ws: "keeps (c # w)"
        using keeps_append [OF keeps_char [of c] w(2)] obj by simp
      show ?thesis
      proof (cases "c' = CHR ''}''")
        case True
        with a Cons obj ws have "rest = r'" by simp
        moreover have "keeps ((c # w) @ [c'])"
          using True by (intro keeps_append open_ws keeps_char) simp
        ultimately show ?thesis
          using Cons w by (intro exI [of _ "(c # w) @ [c']"]) simp
      next
        case False
        with a Cons obj ws have q: "c' = quote" and "scan_object n [] r' = Scanned v rest"
          by (auto split: if_splits)
        from object [OF this(2)] obtain u where u: "r' = u @ rest" "good (fence_run Clean u)"
          by blast
        from keeps_then_string [OF open_ws u(2)] u(1) Cons w q show ?thesis
          by (intro exI [of _ "(c # w) @ quote # u"]) simp
      qed
    next
      case arr
      with a Cons obtain c' r' where ws: "skip_ws r = c' # r'"
        by (auto split: list.splits)
      from keeps_skip_ws [of r] obtain w where w: "r = w @ skip_ws r" "keeps w"
        by blast
      have open_ws: "keeps (c # w)"
        using keeps_append [OF keeps_char [of c] w(2)] arr by simp
      show ?thesis
      proof (cases "c' = CHR '']''")
        case True
        with a Cons arr ws have "rest = r'" by simp
        moreover have "keeps ((c # w) @ [c'])"
          using True by (intro keeps_append open_ws keeps_char) simp
        ultimately show ?thesis
          using Cons w ws by (intro exI [of _ "(c # w) @ [c']"]) simp
      next
        case False
        with a Cons arr ws have "scan_array n [] (skip_ws r) = Scanned v rest"
          by simp
        from array [OF this] obtain u where u: "skip_ws r = u @ rest" "keeps u"
          by blast
        from keeps_append [OF open_ws u(2)] u(1) Cons w show ?thesis
          by (intro exI [of _ "(c # w) @ u"]) simp
      qed
    next
      case const
      with a Cons have "scan_constant cs = Scanned v rest" by simp
      then show ?thesis by (rule scan_constant_consumed)
    qed
  qed
  moreover have "\<exists>u. cs = u @ rest \<and> keeps u" if a: "scan_array (Suc n) vs cs = Scanned v rest"
    for vs cs v rest
  proof -
    from a obtain x r1 where 1: "scan_once n cs = Scanned x r1"
      by (auto split: scanned.splits)
    from a 1 obtain c r2 where 2: "skip_ws r1 = c # r2"
      by (auto split: list.splits)
    from once [OF 1] obtain u1 where u1: "cs = u1 @ r1" "keeps u1" by blast
    from skip_ws_Cons_consumed [OF 2] obtain w1 where w1: "r1 = w1 @ c # r2" "keeps w1" by blast
    from a 1 2 consider (close) "c = CHR '']''" "rest = r2"
      | (more) "c = CHR '',''" "scan_array n (vs @ [x]) (skip_ws r2) = Scanned v rest"
      by (auto split: if_splits)
    then show ?thesis
    proof cases
      case close
      have "keeps (u1 @ w1 @ [c])"
        using close by (intro keeps_append u1 w1 keeps_char) simp
      with u1 w1 close show ?thesis
        by (intro exI [of _ "u1 @ w1 @ [c]"]) simp
    next
      case more
      from array [OF more(2)] obtain u3 where u3: "skip_ws r2 = u3 @ rest" "keeps u3" by blast
      from keeps_skip_ws [of r2] obtain w2 where w2: "r2 = w2 @ skip_ws r2" "keeps w2" by blast
      have "keeps (u1 @ w1 @ [c] @ w2 @ u3)"
        using more by (intro keeps_append u1 w1 w2 u3 keeps_char) simp
      moreover have "cs = (u1 @ w1 @ [c] @ w2 @ u3) @ rest"
        using u1 w1 w2 u3 by (metis append.assoc append_Cons append_Nil)
      ultimately show ?thesis by blast
    qed
  qed
  moreover have "\<exists>u. cs = u @ rest \<and> good (fence_run Clean u)"
    if a: "scan_object (Suc n) ps cs = Scanned v rest" for ps cs v rest
  proof -
    from a obtain key r1 where 1: "scanstring [] cs = Some (key, r1)"
      by (auto split: option.splits)
    from a 1 obtain c r2 where 2: "skip_ws r1 = c # r2"
      by (auto split: list.splits)
    from a 1 2 have colon: "c = CHR '':''"
      by (auto split: if_splits)
    from a 1 2 colon obtain x r3 where 3: "scan_once n (skip_ws r2) = Scanned x r3"
      by (auto split: scanned.splits)
    from a 1 2 3 colon obtain d r4 where 4: "skip_ws r3 = d # r4"
      by (auto split: list.splits)
    from scanstring_run [OF 1] obtain k where k: "cs = k @ r1" "fence_run Clean k = Clean" by blast
    from skip_ws_Cons_consumed [OF 2] obtain w1 where w1: "r1 = w1 @ c # r2" "keeps w1" by blast
    from keeps_skip_ws [of r2] obtain w2 where w2: "r2 = w2 @ skip_ws r2" "keeps w2" by blast
    from once [OF 3] obtain u where u: "skip_ws r2 = u @ r3" "keeps u" by blast
    from skip_ws_Cons_consumed [OF 4] obtain w3 where w3: "r3 = w3 @ d # r4" "keeps w3" by blast
    define t where "t = w1 @ [c] @ w2 @ u @ w3"
    have t: "keeps t"
      unfolding t_def using colon by (intro keeps_append w1 w2 u w3 keeps_char) simp
    have cs: "cs = k @ t @ d # r4"
      unfolding t_def using k w1 w2 u w3 by (metis append.assoc append_Cons append_Nil)
    from a 1 2 3 4 colon consider (close) "d = CHR ''}''" "rest = r4"
      | (more) q r5 where "d = CHR '',''" "skip_ws r4 = q # r5" "q = quote"
          "scan_object n (ps @ [(key, x)]) r5 = Scanned v rest"
      by (auto split: if_splits list.splits)
    then show ?thesis
    proof cases
      case close
      have "keeps (t @ [d])"
        using close by (intro keeps_append t keeps_char) simp
      from string_then_keeps [OF k(2) this] cs close show ?thesis
        by (intro exI [of _ "k @ t @ [d]"]) simp
    next
      case more
      from skip_ws_Cons_consumed [OF more(2)] obtain w4 where w4: "r4 = w4 @ q # r5" "keeps w4"
        by blast
      from object [OF more(4)] obtain u' where u': "r5 = u' @ rest" "good (fence_run Clean u')"
        by blast
      have "keeps (t @ [d] @ w4)"
        using more by (intro keeps_append t w4 keeps_char) simp
      from string_then_keeps_then_string [OF k(2) this u'(2)]
      have "good (fence_run Clean (k @ (t @ [d] @ w4) @ quote # u'))" .
      moreover have "cs = (k @ (t @ [d] @ w4) @ quote # u') @ rest"
        using cs w4 u' more by simp
      ultimately show ?thesis by blast
    qed
  qed
  ultimately show ?case by blast
qed

lemma json_loads_keeps:
  assumes "json_loads s = Inr v"
  shows "keeps s"
proof -
  from assms obtain rest where 1: "scan_once (Suc (2 * length s)) (skip_ws s) = Scanned v rest"
    and 2: "skip_ws rest = []"
    by (auto simp: json_loads_def split: scanned.splits if_splits)
  from scan_consumed_all [of "Suc (2 * length s)"] 1 obtain u
    where u: "skip_ws s = u @ rest" "keeps u" by blast
  from keeps_skip_ws [of s] obtain w where w: "s = w @ skip_ws s" "keeps w" by blast
  from keeps_skip_ws [of rest] 2 have "keeps rest" by simp
  with u w have "keeps (w @ u @ rest)"
    by (intro keeps_append)
  with u w show ?thesis by simp
qed

lemma leading_length_found:
  assumes "leading_length table s \<noteq> 0"
  shows "\<exists>w \<in> set table. s = w @ drop (leading_length table s) s"
proof -
  from assms obtain w where w: "find (\<lambda>w. w \<noteq> [] \<and> prefix w s) table = Some w"
    by (auto simp: leading_length_def split: option.splits)
  then have "w \<in> set table" and "prefix w s"
    by (auto simp: find_Some_iff)
  moreover from w have "leading_length table s = length w"
    by (simp add: leading_length_def)
  ultimately show ?thesis
    by (auto simp: prefix_def)
qed

lemma strip_leading_decomp:
  "\<exists>p. s = p @ strip_leading table s \<and> set p \<subseteq> \<Union> (set ` set table)"
proof (induction table s rule: strip_leading.induct)
  case (1 table s)
  show ?case
  proof (cases "leading_length table s = 0")
    case True
    then show ?thesis
      by (intro exI [of _ "[]"]) (simp add: strip_leading.simps)
  next
    case False
    from leading_length_found [OF False] obtain w
      where w: "w \<in> set table" "s = w @ drop (leading_length table s) s" by blast
    from "1.IH" [OF False] obtain p
      where p: "drop (leading_length table s) s = p @ strip_leading table (drop (leading_length table s) s)"
        "set p \<subseteq> \<Union> (set ` set table)" by blast
    have "strip_leading table s = strip_leading table (drop (leading_length table s) s)"
      using False by (subst strip_leading.simps) simp
    with w p have "s = (w @ p) @ strip_leading table s"
      by (metis append.assoc)
    moreover from w p have "set (w @ p) \<subseteq> \<Union> (set ` set table)"
      by auto
    ultimately show ?thesis by blast
  qed
qed

lemma py_strip_decomp:
  "\<exists>lead trail. s = lead @ py_strip s @ trail
     \<and> set lead \<subseteq> \<Union> (set ` set py_whitespace) \<and> set trail \<subseteq> \<Union> (set ` set py_whitespace)"
proof -
  define s1 where "s1 = strip_leading py_whitespace s"
  from strip_leading_decomp [of s py_whitespace] obtain p
    where p: "s = p @ s1" "set p \<subseteq> \<Union> (set ` set py_whitespace)"
    by (auto simp: s1_def)
  from strip_leading_decomp [of "rev s1" "map rev py_whitespace"] obtain q
    where q: "rev s1 = q @ strip_leading (map rev py_whitespace) (rev s1)"
      "set q \<subseteq> \<Union> (set ` set (map rev py_whitespace))"
    by blast
  from q(1) have "s1 = py_strip s @ rev q"
    by (metis py_strip_def rev_append rev_rev_ident s1_def)
  moreover from q(2) have "set (rev q) \<subseteq> \<Union> (set ` set py_whitespace)"
    by auto
  ultimately show ?thesis
    using p by blast
qed

lemma py_whitespace_no_tick: "CHR 0x60 \<notin> \<Union> (set ` set py_whitespace)"
  by (simp add: py_whitespace_def)

lemma decoded_body_keeps:
  assumes "json_loads (py_strip body) = Inr v"
  shows "keeps body"
proof -
  from py_strip_decomp [of body] obtain lead trail
    where d: "body = lead @ py_strip body @ trail"
      "set lead \<subseteq> \<Union> (set ` set py_whitespace)" "set trail \<subseteq> \<Union> (set ` set py_whitespace)"
    by blast
  from d(2,3) py_whitespace_no_tick have "keeps lead" "keeps trail"
    by (auto intro!: keeps_plain)
  with json_loads_keeps [OF assms] have "keeps (lead @ py_strip body @ trail)"
    by (intro keeps_append)
  with d(1) show ?thesis by simp
qed

lemma decoded_body_no_fence:
  assumes "json_loads (py_strip body) = Inr v"
  shows "\<not> sublist fence_close body" and "\<not> sublist fence_open (body @ [LF])"
proof -
  from decoded_body_keeps [OF assms] have body: "keeps body" .
  then have "good (fence_run Clean body)"
    by (simp add: keeps_def good_def)
  then show "\<not> sublist fence_close body"
    using sublist_fence_seen [of body Clean] by (auto simp: good_def)
  from body have "keeps (body @ [LF])"
    by (intro keeps_append keeps_char) (simp_all add: LF_def)
  then have "good (fence_run Clean (body @ [LF]))"
    by (simp add: keeps_def good_def)
  then show "\<not> sublist fence_open (body @ [LF])"
    using sublist_fence_seen [of "body @ [LF]" Clean] by (auto simp: good_def)
qed

subsection \<open>Response parsing\<close>

lemma dict_get_present: "map_of d k = Some v \<Longrightarrow> dict_get d k = v"
  by (simp add: dict_get_def)

lemma dict_get_absent: "map_of d k = None \<Longrightarrow> dict_get d k = JNull"
  by (simp add: dict_get_def)

lemma parse_response_object:
  assumes "loads (fence_strip raw_text) = Inr (JObject d)"
  shows "parse_response loads raw_text =
     \<lparr>stdout = [Print_value (JObject d),
                Print_field ''Original Label: '' (dict_get d ''original_label''),
                Print_field ''Correct: '' (dict_get d ''correct''),
                Print_field ''Reasoning: '' (dict_get d ''reasoning''),
                Print_field ''Correct Label: '' (dict_get d ''correct_label'')],
      extracted = Some \<lparr>original_label = dict_get d ''original_label'',
                         correct = dict_get d ''correct'',
                         reasoning = dict_get d ''reasoning'',
                         correct_label = dict_get d ''correct_label''\<rparr>,
      raised = None\<rparr>"
  using assms by (simp add: parse_response_def Let_def)

lemma parse_response_fenced:
  assumes "\<not> sublist fence_close body" and "\<not> sublist fence_open (body @ [LF])"
    and "loads (py_strip body) = Inr (JObject d)"
  shows "loads (fence_strip (fence_open @ body @ fence_close)) = Inr (JObject d)"
  using assms by (simp add: fence_strip_def re_sub_fence_fenced)

text \<open>
  Claim C3. For a response that is the opening fence, a body and the closing fence,
  where the decoder reads the trimmed body as an object: the fence is stripped, the
  body is decoded, and the four variables are the values of the keys
  \<^verbatim>\<open>original_label\<close>, \<^verbatim>\<open>correct\<close>, \<^verbatim>\<open>reasoning\<close> and \<^verbatim>\<open>correct_label\<close> in that
  object. A key the object does not have gives \<^verbatim>\<open>None\<close>, and nothing is raised.
  The decoder is a parameter; the body is a text that the standard decoder accepts,
  or any other text that holds no further fence pattern.
\<close>

theorem parse_response_extracts_fields:
  assumes "loads (py_strip body) = Inr (JObject d)"
    and "(\<exists>v. json_loads (py_strip body) = Inr v)
         \<or> (\<not> sublist fence_close body \<and> \<not> sublist fence_open (body @ [LF]))"
  shows "parse_response loads (fence_open @ body @ fence_close) =
     \<lparr>stdout = [Print_value (JObject d),
                Print_field ''Original Label: '' (dict_get d ''original_label''),
                Print_field ''Correct: '' (dict_get d ''correct''),
                Print_field ''Reasoning: '' (dict_get d ''reasoning''),
                Print_field ''Correct Label: '' (dict_get d ''correct_label'')],
      extracted = Some \<lparr>original_label = dict_get d ''original_label'',
                         correct = dict_get d ''correct'',
                         reasoning = dict_get d ''reasoning'',
                         correct_label = dict_get d ''correct_label''\<rparr>,
      raised = None\<rparr>
   \<and> (\<forall>k v. map_of d k = Some v \<longrightarrow> dict_get d k = v)
   \<and> (\<forall>k. map_of d k = None \<longrightarrow> dict_get d k = JNull)"
proof -
  from assms(2)
  have no_fence: "\<not> sublist fence_close body \<and> \<not> sublist fence_open (body @ [LF])"
  proof
    assume "\<exists>v. json_loads (py_strip body) = Inr v"
    then obtain v where "json_loads (py_strip body) = Inr v" ..
    from decoded_body_no_fence [OF this] show ?thesis ..
  next
    assume "\<not> sublist fence_close body \<and> \<not> sublist fence_open (body @ [LF])"
    then show ?thesis .
  qed
  from no_fence have no_close: "\<not> sublist fence_close body" ..
  from no_fence have no_open: "\<not> sublist fence_open (body @ [LF])" ..
  from no_close no_open assms(1)
  have "loads (fence_strip (fence_open @ body @ fence_close)) = Inr (JObject d)"
    by (rule parse_response_fenced)
  then have outcome: "parse_response loads (fence_open @ body @ fence_close) =
     \<lparr>stdout = [Print_value (JObject d),
                Print_field ''Original Label: '' (dict_get d ''original_label''),
                Print_field ''Correct: '' (dict_get d ''correct''),
                Print_field ''Reasoning: '' (dict_get d ''reasoning''),
                Print_field ''Correct Label: '' (dict_get d ''correct_label'')],
      extracted = Some \<lparr>original_label = dict_get d ''original_label'',
                         correct = dict_get d ''correct'',
                         reasoning = dict_get d ''reasoning'',
                         correct_label = dict_get d ''correct_label''\<rparr>,
      raised = None\<rparr>"
    by (rule parse_response_object)
  have present: "\<forall>k v. map_of d k = Some v \<longrightarrow> dict_get d k = v"
    by (simp add: dict_get_def)
  have absent: "\<forall>k. map_of d k = None \<longrightarrow> dict_get d k = JNull"
    by (simp add: dict_get_def)
  from outcome present absent show ?thesis
    by (intro conjI)
qed

theorem parse_response_extracts_fields_witness:
  \<open>parse_response json_loads
      ''```json\<newline>{"original_label":"metal","correct":false,"reasoning":"x","correct_label":"plastic"}\<newline>```''
    = \<lparr>stdout = [Print_value (JObject [(''original_label'', JString ''metal''),
                                         (''correct'', JBool False),
                                         (''reasoning'', JString ''x''),
                                         (''correct_label'', JString ''plastic'')]),
                  Print_field ''Original Label: '' (JString ''metal''),
                  Print_field ''Correct: '' (JBool False),
                  Print_field ''Reasoning: '' (JString ''x''),
                  Print_field ''Correct Label: '' (JString ''plastic'')],
        extracted = Some \<lparr>original_label = JString ''metal'', correct = JBool False,
                           reasoning = JString ''x'', correct_label = JString ''plastic''\<rparr>,
        raised = None\<rparr>
   \<and> parse_response json_loads ''```json\<newline>{"correct": true}\<newline>```''
    = \<lparr>stdout = [Print_value (JObject [(''correct'', JBool True)]),
                  Print_field ''Original Label: '' JNull,
                  Print_field ''Correct: '' (JBool True),
                  Print_field ''Reasoning: '' JNull,
                  Print_field ''Correct Label: '' JNull],
        extracted = Some \<lparr>original_label = JNull, correct = JBool True,
                           reasoning = JNull, correct_label = JNull\<rparr>,
        raised = None\<rparr>\<close>
proof -
  let ?body = \<open>''{"original_label":"metal","correct":false,"reasoning":"x","correct_label":"plastic"}''\<close>
  let ?d = "[(''original_label'', JString ''metal''), (''correct'', JBool False),
             (''reasoning'', JString ''x''), (''correct_label'', JString ''plastic'')]"
  let ?body2 = \<open>''{"correct": true}''\<close>
  let ?d2 = "[(''correct'', JBool True)]"
  have 1: "json_loads (py_strip ?body) = Inr (JObject ?d)" by code_simp
  have 2: "(\<exists>v. json_loads (py_strip ?body) = Inr v)
      \<or> (\<not> sublist fence_close ?body \<and> \<not> sublist fence_open (?body @ [LF]))"
  proof (rule disjI1)
    show "\<exists>v. json_loads (py_strip ?body) = Inr v"
      by (rule exI [of _ "JObject ?d"]) (rule 1)
  qed
  have 3: "json_loads (py_strip ?body2) = Inr (JObject ?d2)" by code_simp
  have 4: "(\<exists>v. json_loads (py_strip ?body2) = Inr v)
      \<or> (\<not> sublist fence_close ?body2 \<and> \<not> sublist fence_open (?body2 @ [LF]))"
  proof (rule disjI1)
    show "\<exists>v. json_loads (py_strip ?body2) = Inr v"
      by (rule exI [of _ "JObject ?d2"]) (rule 3)
  qed
  note first = parse_response_extracts_fields
    [where body = ?body and d = ?d and loads = json_loads, OF 1 2, THEN conjunct1]
  note second = parse_response_extracts_fields
    [where body = ?body2 and d = ?d2 and loads = json_loads, OF 3 4, THEN conjunct1]
  from first second show ?thesis
    by (simp add: fence_open_def fence_close_def dict_get_def)
qed



text \<open>
  Claim C7. When the response has no candidates (the list is empty or absent) the cell
  prints the no-candidates message and nothing else, whatever the decoder is; it prints
  that message in no other case, and the four variables are assigned only when the
  list of candidates is not empty.
\<close>

theorem response_cell_no_candidates:
  "(candidates response = None \<or> candidates response = Some [] \<longrightarrow>
      response_cell loads response =
        \<lparr>stdout = [Print_line ''No candidates returned in the response.''],
         extracted = None, raised = None\<rparr>)
   \<and> (response_cell loads response =
        \<lparr>stdout = [Print_line ''No candidates returned in the response.''],
         extracted = None, raised = None\<rparr> \<longrightarrow>
      candidates response = None \<or> candidates response = Some [])
   \<and> (extracted (response_cell loads response) \<noteq> None \<longrightarrow>
        (\<exists>c cs. candidates response = Some (c # cs)))"
  by (auto simp: response_cell_def no_candidates_def uncaught_def parse_response_def Let_def
      split: option.splits list.splits sum.splits json.splits)

theorem response_cell_no_candidates_witness:
  \<open>response_cell json_loads (Response (Some [])) =
     \<lparr>stdout = [Print_line ''No candidates returned in the response.''],
      extracted = None, raised = None\<rparr>
   \<and> response_cell json_loads (Response None) =
     \<lparr>stdout = [Print_line ''No candidates returned in the response.''],
      extracted = None, raised = None\<rparr>
   \<and> extracted (response_cell json_loads (text_response ''{"correct": true}'')) \<noteq> None
   \<and> (\<exists>c cs. candidates (text_response ''{"correct": true}'') = Some (c # cs))\<close>
proof -
  let ?r = \<open>text_response ''{"correct": true}''\<close>
  have loads: \<open>json_loads (fence_strip ''{"correct": true}'') = Inr (JObject [(''correct'', JBool True)])\<close>
    by code_simp
  have ex: "extracted (response_cell json_loads ?r) \<noteq> None"
    by (simp add: response_cell_def text_response_def parse_response_def loads)
  from response_cell_no_candidates [of "Response (Some [])" json_loads]
    response_cell_no_candidates [of "Response None" json_loads]
    response_cell_no_candidates [of ?r json_loads] ex
  show ?thesis by simp
qed

subsection \<open>read_json\<close>



subsection \<open>read_csv\<close>

text \<open>
  \<^verbatim>\<open>read_csv\<close> returns the first column of every row that is not empty, in the
  order of the file.
\<close>

lemma append_first_columns_eq:
  "append_first_columns data_list rows = data_list @ map hd (filter (\<lambda>row. row \<noteq> []) rows)"
  by (induction rows arbitrary: data_list) (auto simp: hd_conv_nth)

lemma read_csv_rows:
  assumes "fs file_path = Some bytes"
    and "csv_reader (universal_newlines bytes) = Inr rows"
  shows "read_csv fs file_path =
    Inr (map hd (filter (\<lambda>row. row \<noteq> []) rows))"
  using assms by (simp add: read_csv_def open_read_def append_first_columns_eq)

lemma read_csv_missing:
  "fs file_path = None \<Longrightarrow> read_csv fs file_path = Inl (FileNotFoundError (Errno_ENOENT file_path))"
  by (simp add: read_csv_def open_read_def)

text \<open>
  Claim C1. On the file with the header \<^verbatim>\<open>label\<close> and the rows \<^verbatim>\<open>plastic\<close> and
  \<^verbatim>\<open>metal\<close>, with or without an empty row between them, \<^verbatim>\<open>read_csv\<close> skips the
  empty row but not the header: the header is the first entry of the list it returns.
\<close>

theorem read_csv_header_row_returned:
  "read_csv [''labels.csv'' \<mapsto> ''label\<newline>plastic\<newline>metal\<newline>''] ''labels.csv''
     = Inr [''label'', ''plastic'', ''metal'']
   \<and> read_csv [''labels.csv'' \<mapsto> ''label\<newline>plastic\<newline>\<newline>metal\<newline>''] ''labels.csv''
     = Inr [''label'', ''plastic'', ''metal'']"
  by (simp add: read_csv_def open_read_def csv_reader_def parse_reset_def LF_def CR_def
      parse_save_field_def parse_process_char_def start_field_def add_char_then_def
      parse_add_char_def end_of_field_def line_end_def utf8_continuation_def field_len_def
      field_limit_def)

end
